theory Spec2Isabelle
  imports Main
begin

section \<open>JavaScript primitives used by the library\<close>

text \<open>
  Strings are lists of characters (code units below 256); every character class the
  source tests with a regular expression is a predicate on the character code.
  Numbers are the non-negative integers the arrays of the library hold: digits 0 to 9,
  letter values 17 to 42, check digits, weights and weighted sums.
\<close>

definition isDigit :: "char \<Rightarrow> bool" where
  \<comment> \<open>the class \<open>\d\<close>, that is \<open>[0-9]\<close>; its complement is \<open>\D\<close>\<close>
  "isDigit c \<longleftrightarrow> 48 \<le> (of_char c :: nat) \<and> (of_char c :: nat) \<le> 57"

definition isUpper :: "char \<Rightarrow> bool" where
  \<comment> \<open>the class \<open>[A-Z]\<close>\<close>
  "isUpper c \<longleftrightarrow> 65 \<le> (of_char c :: nat) \<and> (of_char c :: nat) \<le> 90"

definition isLower :: "char \<Rightarrow> bool" where
  \<comment> \<open>the class \<open>[a-z]\<close>\<close>
  "isLower c \<longleftrightarrow> 97 \<le> (of_char c :: nat) \<and> (of_char c :: nat) \<le> 122"

definition isAlnum :: "char \<Rightarrow> bool" where
  \<comment> \<open>the class \<open>[a-zA-Z0-9]\<close>\<close>
  "isAlnum c \<longleftrightarrow> isLower c \<or> isUpper c \<or> isDigit c"

definition isLetter :: "char \<Rightarrow> bool" where
  \<comment> \<open>the class \<open>[a-zA-Z]\<close>\<close>
  "isLetter c \<longleftrightarrow> isLower c \<or> isUpper c"

definition isWhiteSpace :: "char \<Rightarrow> bool" where
  \<comment> \<open>white space and line terminators of ECMAScript below code 256:
      TAB, LF, VT, FF, CR, SP, NBSP\<close>
  "isWhiteSpace c \<longleftrightarrow> (of_char c :: nat) \<in> {9, 10, 11, 12, 13, 32, 160}"

definition isLineTerminator :: "char \<Rightarrow> bool" where
  \<comment> \<open>the characters the regular expression \<open>.\<close> does not match (LF, CR)\<close>
  "isLineTerminator c \<longleftrightarrow> (of_char c :: nat) = 10 \<or> (of_char c :: nat) = 13"

definition digitValue :: "char \<Rightarrow> nat" where
  \<comment> \<open>\<open>Number(c)\<close> and \<open>+c\<close> for a decimal digit \<open>c\<close>\<close>
  "digitValue c = (of_char c :: nat) - 48"

fun toString :: "nat \<Rightarrow> string" where
  \<comment> \<open>the decimal string of a number, as \<open>join\<close> and template literals produce it\<close>
  "toString n =
     (if n < 10 then [char_of (48 + n)]
      else toString (n div 10) @ [char_of (48 + n mod 10)])"

declare toString.simps [simp del]

definition toLowerCase :: "string \<Rightarrow> string" where
  \<comment> \<open>\<open>String.prototype.toLowerCase\<close> on code units below 256: the letters A to Z and
      the Latin-1 capitals (192 to 222, the sign 215 apart) move up 32 codes\<close>
  "toLowerCase s =
     map (\<lambda>c. if isUpper c
                   \<or> (192 \<le> (of_char c :: nat) \<and> (of_char c :: nat) \<le> 222
                       \<and> (of_char c :: nat) \<noteq> 215)
                then char_of ((of_char c :: nat) + 32) else c) s"

definition join :: "nat list \<Rightarrow> string" where
  \<comment> \<open>\<open>numbers.join("")\<close>\<close>
  "join numbers = concat (map toString numbers)"

definition repeatedDigit :: "string \<Rightarrow> bool" where
  \<comment> \<open>\<open>/^(\d)\1+$/.test(s)\<close>: one digit, followed by one or more copies of itself\<close>
  "repeatedDigit s =
     (case s of
        [] \<Rightarrow> False
      | c # cs \<Rightarrow> isDigit c \<and> cs \<noteq> [] \<and> list_all (\<lambda>x. x = c) cs)"

fun reduce :: "('b \<Rightarrow> 'a \<Rightarrow> nat \<Rightarrow> 'b) \<Rightarrow> 'a list \<Rightarrow> nat \<Rightarrow> 'b \<Rightarrow> 'b" where
  \<comment> \<open>\<open>Array.prototype.reduce\<close> with the index passed to the callback;
      \<open>reduce f xs 0 init\<close> is \<open>xs.reduce(f, init)\<close>\<close>
  "reduce f [] index acc = acc"
| "reduce f (x # xs) index acc = reduce f xs (index + 1) (f acc x index)"


section \<open>Constants\<close>

definition CPF_LENGTH :: nat where
  \<comment> \<open>Modelled from the spec: the constants module is not among the sources;
      a CPF has 11 digits.\<close>
  "CPF_LENGTH = 11"

definition CNPJ_LENGTH :: nat where
  \<comment> \<open>Modelled from the spec: the constants module is not among the sources;
      a CNPJ has 14 characters.\<close>
  "CNPJ_LENGTH = 14"

definition ALPHABET :: string where
  \<comment> \<open>Modelled from the spec: the constants module is not among the sources;
      the letters of an alphanumeric base are the uppercase letters A to Z.\<close>
  "ALPHABET = ''ABCDEFGHIJKLMNOPQRSTUVWXYZ''"


section \<open>CPF engine\<close>

record CPFOptions =
  formatted :: "bool option"

definition cleanCPF :: "string \<Rightarrow> string" where
  \<comment> \<open>\<open>cpf.replace(/\D/g, "")\<close>\<close>
  "cleanCPF cpf = filter isDigit cpf"

definition cpf_isValidFormat :: "string \<Rightarrow> bool" where
  "cpf_isValidFormat cpf =
     (if length cpf \<noteq> CPF_LENGTH then False
      else \<not> repeatedDigit cpf \<and> cpf \<noteq> ''12345678909'')"

definition isBaseCPF :: "nat list \<Rightarrow> bool" where
  \<comment> \<open>the possible results of \<open>generateBaseCPF\<close>: nine draws of
      \<open>Math.floor(Math.random() * 10)\<close>\<close>
  "isBaseCPF base \<longleftrightarrow> length base = 9 \<and> list_all (\<lambda>d. d < 10) base"

definition cpf_calculateCheckDigit :: "nat list \<Rightarrow> nat" where
  "cpf_calculateCheckDigit numbers =
     (let weight = length numbers + 1;
          sum = reduce (\<lambda>acc num index. acc + num * (weight - index)) numbers 0 0;
          remainder = sum mod 11
      in if remainder < 2 then 0 else 11 - remainder)"

fun cpf_format :: "string \<Rightarrow> string" where
  \<comment> \<open>\<open>cpf.replace(/(\d{3})(\d{3})(\d{3})(\d{2})/, "$1.$2.$3-$4")\<close>:
      the leftmost run of eleven digits is rewritten, the rest is kept\<close>
  "cpf_format [] = []"
| "cpf_format (c # cs) =
     (if 11 \<le> length (c # cs) \<and> list_all isDigit (take 11 (c # cs))
      then take 3 (c # cs) @ ''.'' @ take 3 (drop 3 (c # cs)) @ ''.''
           @ take 3 (drop 6 (c # cs)) @ ''-'' @ take 2 (drop 9 (c # cs))
           @ drop 11 (c # cs)
      else c # cpf_format cs)"

definition cpf_wantsFormatted :: "CPFOptions option \<Rightarrow> bool" where
  \<comment> \<open>the truth value of \<open>options?.formatted\<close>\<close>
  "cpf_wantsFormatted options =
     (case options of
        None \<Rightarrow> False
      | Some opts \<Rightarrow> CPFOptions.formatted opts = Some True)"

definition cpf_generate :: "nat list \<Rightarrow> CPFOptions option \<Rightarrow> string" where
  \<comment> \<open>\<open>generate(options)\<close>, with the random draw \<open>baseCPF\<close> as a parameter\<close>
  "cpf_generate baseCPF options =
     (let firstDigit = cpf_calculateCheckDigit baseCPF;
          secondDigit = cpf_calculateCheckDigit (baseCPF @ [firstDigit]);
          cpf = join (baseCPF @ [firstDigit, secondDigit])
      in if cpf_wantsFormatted options then cpf_format cpf else cpf)"

definition cpf_isValid :: "string \<Rightarrow> bool" where
  "cpf_isValid cpf =
     (let cleanedCPF = cleanCPF cpf
      in if \<not> cpf_isValidFormat cleanedCPF then False
         else
           let digits = map digitValue cleanedCPF;
               baseCPF = take 9 digits;
               firstDigit = cpf_calculateCheckDigit baseCPF;
               secondDigit = cpf_calculateCheckDigit (baseCPF @ [firstDigit])
           in firstDigit = digits ! 9 \<and> secondDigit = digits ! 10)"


section \<open>CNPJ numeric engine\<close>

definition isBaseNumeric :: "nat list \<Rightarrow> bool" where
  \<comment> \<open>the possible results of \<open>generateBaseNumeric\<close>: twelve draws of
      \<open>Math.floor(Math.random() * 10)\<close>\<close>
  "isBaseNumeric base \<longleftrightarrow> length base = 12 \<and> list_all (\<lambda>d. d < 10) base"

fun numeric_loop :: "nat list \<Rightarrow> nat \<Rightarrow> nat \<Rightarrow> nat \<Rightarrow> nat" where
  \<comment> \<open>the \<open>for\<close> loop of \<open>calculateCheckDigit\<close>; the second argument is \<open>i + 1\<close>,
      the number of elements still to visit, \<open>acc\<close> is the variable \<open>sum\<close>\<close>
  "numeric_loop digits 0 acc weight = acc"
| "numeric_loop digits (Suc i) acc weight =
     numeric_loop digits i (acc + digits ! i * weight)
       (if weight = 9 then 2 else weight + 1)"

definition numeric_calculateCheckDigit :: "nat list \<Rightarrow> nat" where
  "numeric_calculateCheckDigit digits =
     (let sum = numeric_loop digits (length digits) 0 2;
          rest = sum mod 11
      in if rest < 2 then 0 else 11 - rest)"

definition numeric_calculateCheckDigits :: "nat list \<Rightarrow> nat \<times> nat" where
  "numeric_calculateCheckDigits baseCNPJ =
     (let firstDigit = numeric_calculateCheckDigit baseCNPJ;
          secondDigit = numeric_calculateCheckDigit (baseCNPJ @ [firstDigit])
      in (firstDigit, secondDigit))"

definition generateNumeric :: "nat list \<Rightarrow> string" where
  \<comment> \<open>\<open>generateNumeric()\<close>, with the random draw \<open>baseCNPJ\<close> as a parameter\<close>
  "generateNumeric baseCNPJ =
     (case numeric_calculateCheckDigits baseCNPJ of
        (firstDigit, secondDigit) \<Rightarrow> join (baseCNPJ @ [firstDigit, secondDigit]))"

definition cleanCNPJ :: "string \<Rightarrow> bool \<Rightarrow> string" where
  \<comment> \<open>\<open>numeric ? cnpj.replace(/\D/g, "") : cnpj.replace(/[./-]/g, "")\<close>\<close>
  "cleanCNPJ cnpj numeric =
     (if numeric then filter isDigit cnpj
      else filter (\<lambda>c. c \<noteq> CHR ''.'' \<and> c \<noteq> CHR ''/'' \<and> c \<noteq> CHR ''-'') cnpj)"

definition numeric_isValidFormat :: "string \<Rightarrow> bool" where
  "numeric_isValidFormat cnpj \<longleftrightarrow> length cnpj = CNPJ_LENGTH \<and> \<not> repeatedDigit cnpj"

definition validateNumeric :: "string \<Rightarrow> bool" where
  "validateNumeric cnpj =
     (let cleanedCNPJ = cleanCNPJ cnpj True
      in if \<not> numeric_isValidFormat cleanedCNPJ then False
         else
           let digits = map digitValue cleanedCNPJ;
               baseCNPJ = take 12 digits
           in case numeric_calculateCheckDigits baseCNPJ of
                (firstDigit, secondDigit) \<Rightarrow>
                  firstDigit = digits ! 12 \<and> secondDigit = digits ! 13)"


section \<open>CNPJ alphanumeric engine\<close>

datatype digit = Num nat | Str char
  \<comment> \<open>an element of a \<open>(number | string)[]\<close> base: a number, or a one-character string\<close>

definition isBaseAlphanumeric :: "digit list \<Rightarrow> bool" where
  \<comment> \<open>the possible results of \<open>generateBaseAlphanumeric\<close>: twelve elements, each
      \<open>Math.floor(Math.random() * 10)\<close> or a character of \<open>ALPHABET\<close>\<close>
  "isBaseAlphanumeric base \<longleftrightarrow>
     length base = 12 \<and>
     list_all (\<lambda>d. case d of Num n \<Rightarrow> n < 10 | Str c \<Rightarrow> c \<in> set ALPHABET) base"

definition letterMap :: "(char \<times> nat) list" where
  "letterMap = [
        (CHR ''A'', 17),
        (CHR ''B'', 18),
        (CHR ''C'', 19),
        (CHR ''D'', 20),
        (CHR ''E'', 21),
        (CHR ''F'', 22),
        (CHR ''G'', 23),
        (CHR ''H'', 24),
        (CHR ''I'', 25),
        (CHR ''J'', 26),
        (CHR ''K'', 27),
        (CHR ''L'', 28),
        (CHR ''M'', 29),
        (CHR ''N'', 30),
        (CHR ''O'', 31),
        (CHR ''P'', 32),
        (CHR ''Q'', 33),
        (CHR ''R'', 34),
        (CHR ''S'', 35),
        (CHR ''T'', 36),
        (CHR ''U'', 37),
        (CHR ''V'', 38),
        (CHR ''W'', 39),
        (CHR ''X'', 40),
        (CHR ''Y'', 41),
        (CHR ''Z'', 42)]"

definition convertLetterToNumber :: "char \<Rightarrow> nat" where
  \<comment> \<open>\<open>letterMap[digit] || 0\<close>; every caller passes a string of one character\<close>
  "convertLetterToNumber digit =
     (case map_of letterMap digit of
        None \<Rightarrow> 0
      | Some v \<Rightarrow> (if v = 0 then 0 else v))"

definition numericDigit :: "digit \<Rightarrow> nat" where
  \<comment> \<open>the constant \<open>numericDigit\<close> of the loop below, as a function of the element:
      \<open>typeof digit === "string" ? convertLetterToNumber(digit) : digit\<close>\<close>
  "numericDigit digit =
     (case digit of Str s \<Rightarrow> convertLetterToNumber s | Num n \<Rightarrow> n)"

fun alfanumeric_loop :: "digit list \<Rightarrow> nat \<Rightarrow> nat \<Rightarrow> nat \<Rightarrow> nat" where
  \<comment> \<open>the \<open>for\<close> loop of \<open>calculateCheckDigit\<close>; the second argument is \<open>i + 1\<close>,
      \<open>acc\<close> is the variable \<open>sum\<close>\<close>
  "alfanumeric_loop digits 0 acc weight = acc"
| "alfanumeric_loop digits (Suc i) acc weight =
     (let digit = digits ! i
      in alfanumeric_loop digits i (acc + numericDigit digit * weight)
           (if weight = 9 then 2 else weight + 1))"

definition alfanumeric_calculateCheckDigit :: "digit list \<Rightarrow> nat" where
  "alfanumeric_calculateCheckDigit digits =
     (let sum = alfanumeric_loop digits (length digits) 0 2;
          rest = sum mod 11
      in if rest < 2 then 0 else 11 - rest)"

definition alfanumeric_calculateCheckDigits :: "digit list \<Rightarrow> nat \<times> nat" where
  "alfanumeric_calculateCheckDigits baseCNPJ =
     (let firstDigit = alfanumeric_calculateCheckDigit baseCNPJ;
          secondDigit = alfanumeric_calculateCheckDigit (baseCNPJ @ [Num firstDigit])
      in (firstDigit, secondDigit))"

definition alfanumeric_join :: "digit list \<Rightarrow> string" where
  \<comment> \<open>\<open>array.join("")\<close> on numbers and one-character strings\<close>
  "alfanumeric_join xs = concat (map (\<lambda>d. case d of Num n \<Rightarrow> toString n | Str c \<Rightarrow> [c]) xs)"

definition generateAlphanumeric :: "digit list \<Rightarrow> string" where
  \<comment> \<open>\<open>generateAlphanumeric()\<close>, with the random draw \<open>baseCNPJ\<close> as a parameter\<close>
  "generateAlphanumeric baseCNPJ =
     (case alfanumeric_calculateCheckDigits baseCNPJ of
        (firstDigit, secondDigit) \<Rightarrow>
          alfanumeric_join (baseCNPJ @ [Num firstDigit, Num secondDigit]))"

definition NumberOfChar :: "char \<Rightarrow> nat option" where
  \<comment> \<open>\<open>Number(item)\<close> for a string of one character; \<open>None\<close> is NaN. A digit is its
      value, white space trims to the empty string, which is 0, all else is NaN.\<close>
  "NumberOfChar item =
     (if isDigit item then Some (digitValue item)
      else if isWhiteSpace item then Some 0
      else None)"

definition convertCnpj :: "string \<Rightarrow> nat list" where
  \<comment> \<open>\<open>isNaN(Number(item)) ? convertLetterToNumber(item) : +item\<close> on every character\<close>
  "convertCnpj cnpj =
     map (\<lambda>item. case NumberOfChar item of
                    None \<Rightarrow> convertLetterToNumber item
                  | Some n \<Rightarrow> n) cnpj"

definition radixValue :: "char \<Rightarrow> nat" where
  \<comment> \<open>the value of a character as a digit of \<open>parseInt\<close>; 36 when it is none\<close>
  "radixValue c =
     (if isDigit c then (of_char c :: nat) - 48
      else if isLower c then (of_char c :: nat) - 87
      else if isUpper c then (of_char c :: nat) - 55
      else 36)"

definition parseInt :: "string \<Rightarrow> int option" where
  \<comment> \<open>\<open>parseInt(string)\<close> with no radix argument, as ECMAScript defines it: leading
      white space is trimmed, a sign is read, a prefix \<open>0x\<close> or \<open>0X\<close> selects radix 16,
      and the longest prefix of digits of the radix is read. \<open>None\<close> is NaN.\<close>
  "parseInt string =
     (let s1 = dropWhile isWhiteSpace string;
          sign = (if s1 \<noteq> [] \<and> hd s1 = CHR ''-'' then - 1 else 1 :: int);
          s2 = (if s1 \<noteq> [] \<and> (hd s1 = CHR ''+'' \<or> hd s1 = CHR ''-'') then tl s1 else s1);
          hex = (2 \<le> length s2 \<and> (take 2 s2 = ''0x'' \<or> take 2 s2 = ''0X''));
          radix = (if hex then 16 else 10 :: nat);
          s3 = (if hex then drop 2 s2 else s2);
          z = takeWhile (\<lambda>c. radixValue c < radix) s3
      in if z = [] then None
         else Some (sign * int (foldl (\<lambda>acc c. acc * radix + radixValue c) 0 z)))"

definition strictEquals :: "int option \<Rightarrow> int option \<Rightarrow> bool" where
  \<comment> \<open>\<open>a === b\<close> on numbers: NaN equals nothing, itself included\<close>
  "strictEquals a b = (case (a, b) of (Some x, Some y) \<Rightarrow> x = y | _ \<Rightarrow> False)"

definition validateAlphanumeric :: "string \<Rightarrow> bool" where
  "validateAlphanumeric cnpj =
     (let digits = convertCnpj (if length cnpj = CNPJ_LENGTH then take 12 cnpj else cnpj)
      in case alfanumeric_calculateCheckDigits (map Num digits) of
           (dv1, dv2) \<Rightarrow>
             let twoFinalDigitsOriginal = parseInt (drop (length cnpj - 2) cnpj);
                 twoFinalDigitsCalculated = parseInt (toString dv1 @ toString dv2)
             in strictEquals twoFinalDigitsOriginal twoFinalDigitsCalculated)"


section \<open>CNPJ dispatcher\<close>

datatype cnpj_type = numeric | alfanumeric

record CNPJOptions =
  type :: "cnpj_type option"
  formatted :: "bool option"

fun cnpj_format :: "string \<Rightarrow> string" where
  \<comment> \<open>\<open>cnpj.replace(/(.{2})(.{3})(.{3})(.{4})(.{2})/, "$1.$2.$3/$4-$5")\<close>: the
      leftmost run of fourteen characters other than line terminators is rewritten\<close>
  "cnpj_format [] = []"
| "cnpj_format (c # cs) =
     (if 14 \<le> length (c # cs) \<and> list_all (\<lambda>x. \<not> isLineTerminator x) (take 14 (c # cs))
      then take 2 (c # cs) @ ''.'' @ take 3 (drop 2 (c # cs)) @ ''.''
           @ take 3 (drop 5 (c # cs)) @ ''/'' @ take 4 (drop 8 (c # cs)) @ ''-''
           @ take 2 (drop 12 (c # cs)) @ drop 14 (c # cs)
      else c # cnpj_format cs)"

definition isNumeric :: "string \<Rightarrow> bool" where
  \<comment> \<open>\<open>/^[0-9]+$/.test(value)\<close>\<close>
  "isNumeric v \<longleftrightarrow> v \<noteq> [] \<and> list_all isDigit v"

definition isAlfanumeric :: "string \<Rightarrow> bool" where
  \<comment> \<open>\<open>/^[a-zA-Z0-9]+$/.test(value)\<close>\<close>
  "isAlfanumeric v \<longleftrightarrow> v \<noteq> [] \<and> list_all isAlnum v"

definition cnpj_generate :: "nat list \<Rightarrow> digit list \<Rightarrow> CNPJOptions option \<Rightarrow> string" where
  \<comment> \<open>\<open>generate(options)\<close>; the draws of the numeric and of the alphanumeric
      generator are parameters\<close>
  "cnpj_generate baseNumeric baseAlphanumeric options =
     (let cnpj =
            (if (case options of None \<Rightarrow> False | Some opts \<Rightarrow> type opts = Some alfanumeric)
             then generateAlphanumeric baseAlphanumeric
             else generateNumeric baseNumeric)
      in if (case options of None \<Rightarrow> False
             | Some opts \<Rightarrow> CNPJOptions.formatted opts = Some True)
         then cnpj_format cnpj else cnpj)"

definition cnpj_isValid :: "string \<Rightarrow> bool" where
  "cnpj_isValid cnpj =
     (let cleanedCNPJ = filter isAlnum cnpj
      in if length cleanedCNPJ = CNPJ_LENGTH then
           (if isNumeric cleanedCNPJ then validateNumeric cleanedCNPJ
            else if isAlfanumeric cleanedCNPJ then validateAlphanumeric cleanedCNPJ
            else False)
         else False)"


section \<open>The rules as the specification words them\<close>

definition mod11Rule_spec :: "nat \<Rightarrow> nat" where
  \<comment> \<open>0 if the remainder of the sum modulo 11 is less than 2, else 11 minus it\<close>
  "mod11Rule_spec s = (let remainder = s mod 11 in if remainder < 2 then 0 else 11 - remainder)"

definition cpf_checkDigit_spec :: "nat list \<Rightarrow> nat" where
  \<comment> \<open>the weight is \<open>len + 1\<close> for the leftmost element and decreases by 1 per
      position (positions counted from 0)\<close>
  "cpf_checkDigit_spec sequence =
     mod11Rule_spec (\<Sum>i\<leftarrow>[0..<length sequence]. sequence ! i * (length sequence + 1 - i))"


fun cnpj_weight_spec :: "nat \<Rightarrow> nat" where
  \<comment> \<open>the weight of the element \<open>j\<close> places left of the rightmost one: it starts at 2,
      increments by 1 up to 9, then resets to 2\<close>
  "cnpj_weight_spec 0 = 2"
| "cnpj_weight_spec (Suc j) = (if cnpj_weight_spec j = 9 then 2 else cnpj_weight_spec j + 1)"

definition cnpj_checkDigit_spec :: "nat list \<Rightarrow> nat" where
  \<comment> \<open>weights assigned from the rightmost element leftward, then the modulo-11 rule\<close>
  "cnpj_checkDigit_spec vs =
     mod11Rule_spec (\<Sum>j\<leftarrow>[0..<length vs]. vs ! (length vs - 1 - j) * cnpj_weight_spec j)"


definition charValue_spec :: "char \<Rightarrow> nat" where
  \<comment> \<open>the value of a position: the digit itself, for an uppercase letter its code
      minus 48 (A is 17, Z is 42), and 0 for any other character\<close>
  "charValue_spec c =
     (if isDigit c then digitValue c
      else if isUpper c then (of_char c :: nat) - 48
      else 0)"


definition parsePair_spec :: "string \<Rightarrow> nat option" where
  \<comment> \<open>integer parsing as the specification describes it: the decimal digits up to the
      first non-digit are read, and the result is NaN (\<open>None\<close>) when the string starts
      with a non-digit\<close>
  "parsePair_spec s =
     (let z = takeWhile isDigit s
      in if z = [] then None
         else Some (foldl (\<lambda>acc c. acc * 10 + digitValue c) 0 z))"

definition validateAlphanumeric_spec :: "string \<Rightarrow> bool" where
  \<comment> \<open>the two check digits are recomputed from the first 12 characters; the input is
      accepted when its last two characters and the two computed digits parse to the
      same integer\<close>
  "validateAlphanumeric_spec cnpj =
     (let dv1 = cnpj_checkDigit_spec (map charValue_spec (take 12 cnpj));
          dv2 = cnpj_checkDigit_spec (map charValue_spec (take 12 cnpj) @ [dv1])
      in case (parsePair_spec (drop 12 cnpj), parsePair_spec (toString dv1 @ toString dv2)) of
           (Some original, Some calculated) \<Rightarrow> original = calculated
         | _ \<Rightarrow> False)"


section \<open>Properties of the CPF engine\<close>

subsection \<open>The blacklist\<close>

lemma repeatedDigit_replicate:
  "isDigit c \<Longrightarrow> 2 \<le> n \<Longrightarrow> repeatedDigit (replicate n c)"
  by (cases n) (auto simp: repeatedDigit_def list_all_iff)

lemma cleanCPF_all_digits: "c \<in> set (cleanCPF input) \<Longrightarrow> isDigit c"
  by (simp add: cleanCPF_def)

lemma cpf_repeated_checksum:
  "d < 10 \<Longrightarrow> cpf_calculateCheckDigit (replicate 9 d) = d \<and>
     cpf_calculateCheckDigit (replicate 9 d @ [d]) = d"
proof -
  assume "d < 10"
  then have "d \<in> set [0..<10]" by simp
  moreover have "\<forall>d \<in> set [0..<10]. cpf_calculateCheckDigit (replicate 9 d) = d \<and>
     cpf_calculateCheckDigit (replicate 9 d @ [d]) = d"
    by code_simp
  ultimately show ?thesis by blast
qed

text \<open>
  C4. \<open>cpf.isValid\<close> is false for every input whose cleaned form does not have
  eleven characters, is eleven copies of one digit, or is \<open>12345678909\<close>. These are
  rejected by the format check alone: the repeated digits and \<open>12345678909\<close> carry the
  very check digits the recomputation would give.
\<close>

theorem cpf_blacklist:
  "(length (cleanCPF input) \<noteq> 11 \<or> (\<exists>c. cleanCPF input = replicate 11 c)
      \<or> cleanCPF input = ''12345678909'' \<longrightarrow> \<not> cpf_isValid input)
   \<and> (d < 10 \<longrightarrow> cpf_calculateCheckDigit (replicate 9 d) = d
          \<and> cpf_calculateCheckDigit (replicate 9 d @ [d]) = d)
   \<and> cpf_calculateCheckDigit [1, 2, 3, 4, 5, 6, 7, 8, 9] = 0
   \<and> cpf_calculateCheckDigit [1, 2, 3, 4, 5, 6, 7, 8, 9, 0] = 9"
proof (intro conjI impI)
  assume h: "length (cleanCPF input) \<noteq> 11 \<or> (\<exists>c. cleanCPF input = replicate 11 c)
      \<or> cleanCPF input = ''12345678909''"
  show "\<not> cpf_isValid input"
  proof -
    have "\<not> cpf_isValidFormat (cleanCPF input)"
      using h
    proof (elim disjE exE)
      assume "length (cleanCPF input) \<noteq> 11"
      then show ?thesis by (simp add: cpf_isValidFormat_def CPF_LENGTH_def)
    next
      fix c assume eq: "cleanCPF input = replicate 11 c"
      then have "c \<in> set (cleanCPF input)" by simp
      then have "isDigit c" by (rule cleanCPF_all_digits)
      then have "repeatedDigit (replicate 11 c)" by (rule repeatedDigit_replicate) simp
      then show ?thesis by (simp add: cpf_isValidFormat_def CPF_LENGTH_def eq)
    next
      assume "cleanCPF input = ''12345678909''"
      then show ?thesis by (simp add: cpf_isValidFormat_def)
    qed
    then show ?thesis by (simp add: cpf_isValid_def)
  qed
next
  assume "d < 10"
  then show "cpf_calculateCheckDigit (replicate 9 d) = d" using cpf_repeated_checksum by blast
next
  assume "d < 10"
  then show "cpf_calculateCheckDigit (replicate 9 d @ [d]) = d" using cpf_repeated_checksum by blast
next
  show "cpf_calculateCheckDigit [1, 2, 3, 4, 5, 6, 7, 8, 9] = 0" by code_simp
next
  show "cpf_calculateCheckDigit [1, 2, 3, 4, 5, 6, 7, 8, 9, 0] = 9" by code_simp
qed

theorem cpf_blacklist_witness:
  "\<not> cpf_isValid ''1234567890'' \<and> \<not> cpf_isValid ''777.777.777-77''
   \<and> \<not> cpf_isValid ''123.456.789-09''
   \<and> cpf_calculateCheckDigit (replicate 9 7) = 7
   \<and> cpf_calculateCheckDigit (replicate 9 7 @ [7]) = 7"
proof -
  have a: "length (cleanCPF ''1234567890'') \<noteq> 11" by code_simp
  have b: "cleanCPF ''777.777.777-77'' = replicate 11 (CHR ''7'')" by code_simp
  have c: "cleanCPF ''123.456.789-09'' = ''12345678909''" by code_simp
  have d: "(7::nat) < 10" by simp
  from b have b': "\<exists>c. cleanCPF ''777.777.777-77'' = replicate 11 c" by blast
  show ?thesis
    using cpf_blacklist [of "''1234567890''" 7] cpf_blacklist [of "''777.777.777-77''" 7]
      cpf_blacklist [of "''123.456.789-09''" 7] a b' c d
    by blast
qed

subsection \<open>The check-digit algorithm\<close>

lemma sum_list_upt_shift:
  "(\<Sum>i\<leftarrow>[0..<Suc n]. f i) = f 0 + (\<Sum>i\<leftarrow>[0..<n]. f (Suc i))"
proof -
  have "[0..<Suc n] = 0 # map Suc [0..<n]"
    by (simp add: upt_conv_Cons map_Suc_upt del: upt_Suc)
  then show ?thesis by (simp add: comp_def del: upt_Suc)
qed

lemma cpf_reduce_sum:
  "reduce (\<lambda>acc num index. acc + num * (w - index)) xs k a =
     a + (\<Sum>i\<leftarrow>[0..<length xs]. xs ! i * (w - (k + i)))"
proof (induction xs arbitrary: k a)
  case Nil
  show ?case by simp
next
  case (Cons x xs)
  show ?case
    by (simp add: Cons.IH sum_list_upt_shift del: upt_Suc)
qed

lemma cpf_calculateCheckDigit_spec:
  "cpf_calculateCheckDigit numbers = cpf_checkDigit_spec numbers"
  by (simp add: cpf_calculateCheckDigit_def cpf_checkDigit_spec_def mod11Rule_spec_def
      cpf_reduce_sum Let_def)

lemma mod11Rule_spec_lt10: "mod11Rule_spec t < 10"
  by (simp add: mod11Rule_spec_def Let_def) arith

lemma toString_digit: "d < 10 \<Longrightarrow> toString d = [char_of (48 + d)]"
  by (simp add: toString.simps)

lemma join_digits:
  "list_all (\<lambda>d. d < 10) ds \<Longrightarrow> join ds = map (\<lambda>d. char_of (48 + d)) ds"
  by (induction ds) (simp_all add: join_def toString_digit)

lemma digitValue_digit: "d < (10::nat) \<Longrightarrow> digitValue (char_of (48 + d)) = d"
  by (simp add: digitValue_def)

lemma isDigit_digit: "d < (10::nat) \<Longrightarrow> isDigit (char_of (48 + d))"
  by (simp add: isDigit_def)


lemma cpf_checkDigit_spec_lt10: "cpf_checkDigit_spec xs < 10"
  by (simp add: cpf_checkDigit_spec_def mod11Rule_spec_lt10)

lemma cpf_calculateCheckDigit_lt10: "cpf_calculateCheckDigit xs < 10"
  by (simp add: cpf_calculateCheckDigit_spec cpf_checkDigit_spec_lt10)

lemma cpf_generate_unformatted:
  assumes "isBaseCPF base"
  shows "cpf_generate base None =
     map (\<lambda>d. char_of (48 + d))
       (base @ [cpf_calculateCheckDigit base,
                cpf_calculateCheckDigit (base @ [cpf_calculateCheckDigit base])])"
proof -
  have "list_all (\<lambda>d. d < 10)
          (base @ [cpf_calculateCheckDigit base,
                   cpf_calculateCheckDigit (base @ [cpf_calculateCheckDigit base])])"
    using assms by (simp add: isBaseCPF_def cpf_calculateCheckDigit_lt10)
  then show ?thesis
    by (simp add: cpf_generate_def cpf_wantsFormatted_def Let_def join_digits)
qed

lemma cpf_isValid_unfold:
  "cpf_isValid cpf \<longleftrightarrow>
     cpf_isValidFormat (cleanCPF cpf)
     \<and> cpf_calculateCheckDigit (take 9 (map digitValue (cleanCPF cpf)))
          = map digitValue (cleanCPF cpf) ! 9
     \<and> cpf_calculateCheckDigit (take 9 (map digitValue (cleanCPF cpf))
            @ [cpf_calculateCheckDigit (take 9 (map digitValue (cleanCPF cpf)))])
          = map digitValue (cleanCPF cpf) ! 10"
  by (simp add: cpf_isValid_def Let_def)

lemma cpf_isValidFormat_length: "cpf_isValidFormat s \<Longrightarrow> length s = 11"
  by (simp add: cpf_isValidFormat_def CPF_LENGTH_def split: if_splits)

text \<open>
  C5. The CPF check digit of a sequence of length \<open>n\<close> is 0 when the sum of
  \<open>value[i] * (n + 1 - i)\<close> over the positions \<open>i\<close> from the left, modulo 11, is less
  than 2, and 11 minus that remainder otherwise. The two check digits are computed one
  after the other: the eleventh digit is the check digit of the nine base digits
  followed by the tenth, in \<open>generate\<close> and in every document \<open>isValid\<close> accepts.
\<close>

theorem cpf_check_digit_algorithm:
  "cpf_calculateCheckDigit numbers = cpf_checkDigit_spec numbers
   \<and> (isBaseCPF base \<longrightarrow>
        length (cpf_generate base None) = 11
        \<and> map digitValue (take 9 (cpf_generate base None)) = base
        \<and> digitValue (cpf_generate base None ! 9) = cpf_checkDigit_spec base
        \<and> digitValue (cpf_generate base None ! 10) =
            cpf_checkDigit_spec (base @ [digitValue (cpf_generate base None ! 9)]))
   \<and> (cpf_isValid cpf \<longrightarrow>
        (let digits = map digitValue (cleanCPF cpf)
         in length digits = 11
            \<and> digits ! 9 = cpf_checkDigit_spec (take 9 digits)
            \<and> digits ! 10 = cpf_checkDigit_spec (take 9 digits @ [digits ! 9])))"
proof (intro conjI impI)
  show "cpf_calculateCheckDigit numbers = cpf_checkDigit_spec numbers"
    by (rule cpf_calculateCheckDigit_spec)
next
  assume b: "isBaseCPF base"
  then have len: "length base = 9" and small: "list_all (\<lambda>d. d < 10) base"
    by (simp_all add: isBaseCPF_def)
  note gen = cpf_generate_unformatted [OF b]
  show "length (cpf_generate base None) = 11"
    by (simp add: gen len)
  have "map digitValue (map (\<lambda>d. char_of (48 + d)) base) = base"
    using small by (induction base) (simp_all add: digitValue_digit)
  then show "map digitValue (take 9 (cpf_generate base None)) = base"
    by (simp add: gen len)
  have nine: "cpf_generate base None ! 9 = char_of (48 + cpf_calculateCheckDigit base)"
    by (simp add: gen nth_append len)
  show d9: "digitValue (cpf_generate base None ! 9) = cpf_checkDigit_spec base"
    by (simp add: nine digitValue_digit cpf_calculateCheckDigit_lt10
        cpf_calculateCheckDigit_spec [symmetric])
  have ten: "cpf_generate base None ! 10 =
      char_of (48 + cpf_calculateCheckDigit (base @ [cpf_calculateCheckDigit base]))"
    by (simp add: gen nth_append len)
  show "digitValue (cpf_generate base None ! 10) =
      cpf_checkDigit_spec (base @ [digitValue (cpf_generate base None ! 9)])"
    by (simp add: d9) (simp add: ten digitValue_digit cpf_calculateCheckDigit_lt10
        cpf_calculateCheckDigit_spec [symmetric])
next
  assume v: "cpf_isValid cpf"
  then have len: "length (cleanCPF cpf) = 11"
    by (simp add: cpf_isValid_unfold cpf_isValidFormat_length)
  from v have A: "cpf_calculateCheckDigit (take 9 (map digitValue (cleanCPF cpf)))
          = map digitValue (cleanCPF cpf) ! 9"
    and B: "cpf_calculateCheckDigit (take 9 (map digitValue (cleanCPF cpf))
            @ [cpf_calculateCheckDigit (take 9 (map digitValue (cleanCPF cpf)))])
          = map digitValue (cleanCPF cpf) ! 10"
    using cpf_isValid_unfold [of cpf] by blast+
  from A have "map digitValue (cleanCPF cpf) ! 9
        = cpf_checkDigit_spec (take 9 (map digitValue (cleanCPF cpf)))"
    by (simp add: cpf_calculateCheckDigit_spec)
  moreover from B have "map digitValue (cleanCPF cpf) ! 10
        = cpf_checkDigit_spec (take 9 (map digitValue (cleanCPF cpf))
            @ [map digitValue (cleanCPF cpf) ! 9])"
    unfolding A by (simp add: cpf_calculateCheckDigit_spec)
  ultimately show "let digits = map digitValue (cleanCPF cpf)
         in length digits = 11
            \<and> digits ! 9 = cpf_checkDigit_spec (take 9 digits)
            \<and> digits ! 10 = cpf_checkDigit_spec (take 9 digits @ [digits ! 9])"
    using len by (simp add: Let_def)
qed

theorem cpf_check_digit_algorithm_witness:
  "cpf_calculateCheckDigit [2, 9, 5, 3, 7, 9, 9, 5, 5] = 9
   \<and> cpf_generate [2, 9, 5, 3, 7, 9, 9, 5, 5] None = ''29537995593''
   \<and> cpf_checkDigit_spec [2, 9, 5, 3, 7, 9, 9, 5, 5] = 9
   \<and> cpf_checkDigit_spec [2, 9, 5, 3, 7, 9, 9, 5, 5, 9] = 3
   \<and> cpf_isValid ''295.379.955-93''
   \<and> map digitValue (cleanCPF ''295.379.955-93'') = [2, 9, 5, 3, 7, 9, 9, 5, 5, 9, 3]"
proof -
  have b: "isBaseCPF [2, 9, 5, 3, 7, 9, 9, 5, 5]" by code_simp
  have v: "cpf_isValid ''295.379.955-93''" by code_simp
  have g: "cpf_generate [2, 9, 5, 3, 7, 9, 9, 5, 5] None = ''29537995593''" by code_simp
  have c: "map digitValue (cleanCPF ''295.379.955-93'') = [2, 9, 5, 3, 7, 9, 9, 5, 5, 9, 3]"
    by code_simp
  have s1: "cpf_calculateCheckDigit [2, 9, 5, 3, 7, 9, 9, 5, 5] = 9" by code_simp
  from cpf_check_digit_algorithm
         [of "[2, 9, 5, 3, 7, 9, 9, 5, 5]" "[2, 9, 5, 3, 7, 9, 9, 5, 5]" "''295.379.955-93''"]
       b v
  have "cpf_checkDigit_spec [2, 9, 5, 3, 7, 9, 9, 5, 5] = 9
        \<and> cpf_checkDigit_spec [2, 9, 5, 3, 7, 9, 9, 5, 5, 9] = 3"
    by (simp add: c s1 Let_def)
  with b v g c s1 show ?thesis by simp
qed

section \<open>Properties of the CNPJ engines\<close>

subsection \<open>The weighting of the check digit\<close>

lemma cnpj_weight_spec_closed: "cnpj_weight_spec j = 2 + j mod 8"
proof (induction j)
  case 0
  show ?case by simp
next
  case (Suc j)
  have "Suc j mod 8 = (if j mod 8 = 7 then 0 else Suc (j mod 8))"
    by (simp add: mod_Suc)
  with Suc show ?case by simp
qed

lemma numeric_loop_sum:
  "numeric_loop digits k acc (cnpj_weight_spec j) =
     acc + (\<Sum>i\<leftarrow>[0..<k]. digits ! (k - 1 - i) * cnpj_weight_spec (j + i))"
proof (induction k arbitrary: acc j)
  case 0
  show ?case by simp
next
  case (Suc k)
  have "numeric_loop digits (Suc k) acc (cnpj_weight_spec j) =
          numeric_loop digits k (acc + digits ! k * cnpj_weight_spec j) (cnpj_weight_spec (Suc j))"
    by simp
  also have "\<dots> = acc + digits ! k * cnpj_weight_spec j
        + (\<Sum>i\<leftarrow>[0..<k]. digits ! (k - 1 - i) * cnpj_weight_spec (Suc j + i))"
    by (rule Suc.IH)
  also have "\<dots> = acc + (\<Sum>i\<leftarrow>[0..<Suc k]. digits ! (Suc k - 1 - i) * cnpj_weight_spec (j + i))"
    by (simp add: sum_list_upt_shift del: upt_Suc cnpj_weight_spec.simps)
  finally show ?case .
qed

lemma numeric_calculateCheckDigit_spec:
  "numeric_calculateCheckDigit digits = cnpj_checkDigit_spec digits"
  using numeric_loop_sum [of digits "length digits" 0 0]
  by (simp add: numeric_calculateCheckDigit_def cnpj_checkDigit_spec_def mod11Rule_spec_def Let_def)

lemma alfanumeric_loop_numeric:
  "k \<le> length ds \<Longrightarrow>
     alfanumeric_loop ds k acc w = numeric_loop (map numericDigit ds) k acc w"
  by (induction k arbitrary: acc w) (simp_all add: Let_def)

lemma alfanumeric_calculateCheckDigit_numeric:
  "alfanumeric_calculateCheckDigit ds = numeric_calculateCheckDigit (map numericDigit ds)"
  by (simp add: alfanumeric_calculateCheckDigit_def numeric_calculateCheckDigit_def
      alfanumeric_loop_numeric)

text \<open>
  C6. In both CNPJ engines the weights are assigned from the rightmost element leftward,
  starting at 2, incrementing by 1 up to 9 and then resetting to 2; the check digit is 0
  if the weighted sum modulo 11 is less than 2, else 11 minus that remainder. The
  alphanumeric engine weights the values of its elements in the same way.
\<close>

theorem cnpj_check_digit_weighting:
  "numeric_calculateCheckDigit digits = cnpj_checkDigit_spec digits
   \<and> alfanumeric_calculateCheckDigit elements = cnpj_checkDigit_spec (map numericDigit elements)
   \<and> map cnpj_weight_spec [0..<12] = [2, 3, 4, 5, 6, 7, 8, 9, 2, 3, 4, 5]
   \<and> cnpj_weight_spec j = 2 + j mod 8"
proof (intro conjI)
  show "numeric_calculateCheckDigit digits = cnpj_checkDigit_spec digits"
    by (rule numeric_calculateCheckDigit_spec)
  show "alfanumeric_calculateCheckDigit elements = cnpj_checkDigit_spec (map numericDigit elements)"
    by (simp add: alfanumeric_calculateCheckDigit_numeric numeric_calculateCheckDigit_spec)
  show "map cnpj_weight_spec [0..<12] = [2, 3, 4, 5, 6, 7, 8, 9, 2, 3, 4, 5]"
    by code_simp
  show "cnpj_weight_spec j = 2 + j mod 8"
    by (rule cnpj_weight_spec_closed)
qed

subsection \<open>The value of a position of an alphanumeric CNPJ\<close>

lemma letterMap_keys: "map_of letterMap c = Some v \<Longrightarrow> isUpper c"
proof -
  assume "map_of letterMap c = Some v"
  then have "(c, v) \<in> set letterMap" by (rule map_of_SomeD)
  then have "c \<in> set ALPHABET"
    by (auto simp: letterMap_def ALPHABET_def)
  moreover have "list_all isUpper ALPHABET" by code_simp
  ultimately show ?thesis by (simp add: list_all_iff)
qed

lemma convertLetterToNumber_upper:
  assumes "isUpper c"
  shows "convertLetterToNumber c = (of_char c :: nat) - 48"
proof -
  have all: "\<forall>n \<in> set [65..<91]. convertLetterToNumber (char_of n) = n - 48"
    by code_simp
  from assms have "(of_char c :: nat) \<in> {65..<91}"
    by (simp add: isUpper_def)
  then have "(of_char c :: nat) \<in> set [65..<91]"
    by (simp only: set_upt)
  with all have "convertLetterToNumber (char_of (of_char c :: nat)) = (of_char c :: nat) - 48"
    by blast
  then show ?thesis by simp
qed

lemma convertLetterToNumber_other:
  assumes "\<not> isUpper c"
  shows "convertLetterToNumber c = 0"
proof (cases "map_of letterMap c")
  case None
  then show ?thesis by (simp add: convertLetterToNumber_def)
next
  case (Some v)
  with assms show ?thesis using letterMap_keys by blast
qed

lemma convertLetterToNumber_value:
  "convertLetterToNumber c = (if isUpper c then (of_char c :: nat) - 48 else 0)"
  by (simp add: convertLetterToNumber_upper convertLetterToNumber_other)

lemma whiteSpace_not_upper: "isWhiteSpace c \<Longrightarrow> \<not> isUpper c"
  by (auto simp: isWhiteSpace_def isUpper_def)

lemma convertCnpj_values: "convertCnpj cnpj = map charValue_spec cnpj"
  by (auto simp: convertCnpj_def charValue_spec_def NumberOfChar_def
      convertLetterToNumber_value whiteSpace_not_upper)

lemma numericDigit_Num_list: "map numericDigit (map Num ns) = ns"
  by (induction ns) (simp_all add: numericDigit_def)

text \<open>
  C7. In the alphanumeric check-digit computation a decimal digit contributes its own
  value to the weighted sum, an uppercase letter its fixed map value, which is its
  ASCII code minus 48 (A is 17, B is 18, and so on to Z, which is 42), and every other
  character contributes 0. This holds for the characters \<open>convertCnpj\<close> converts in
  validation and for the numbers and letters of a generated base.
\<close>

theorem alphanumeric_position_value:
  "convertCnpj cnpj = map charValue_spec cnpj
   \<and> alfanumeric_calculateCheckDigit (map Num (convertCnpj cnpj))
       = cnpj_checkDigit_spec (map charValue_spec cnpj)
   \<and> numericDigit (Num n) = n
   \<and> numericDigit (Str c) = (if isUpper c then (of_char c :: nat) - 48 else 0)
   \<and> map convertLetterToNumber ALPHABET = [17..<43]
   \<and> map charValue_spec ''0123456789'' = [0..<10]
   \<and> map charValue_spec ALPHABET = [17..<43]
   \<and> map charValue_spec ''az.-/ '' = [0, 0, 0, 0, 0, 0]"
proof (intro conjI)
  show "convertCnpj cnpj = map charValue_spec cnpj"
    by (rule convertCnpj_values)
  show "alfanumeric_calculateCheckDigit (map Num (convertCnpj cnpj))
       = cnpj_checkDigit_spec (map charValue_spec cnpj)"
    by (simp only: alfanumeric_calculateCheckDigit_numeric numericDigit_Num_list
        numeric_calculateCheckDigit_spec convertCnpj_values)
  show "numericDigit (Num n) = n"
    by (simp add: numericDigit_def)
  show "numericDigit (Str c) = (if isUpper c then (of_char c :: nat) - 48 else 0)"
    by (simp add: numericDigit_def convertLetterToNumber_value)
  show "map convertLetterToNumber ALPHABET = [17..<43]"
    by code_simp
  show "map charValue_spec ''0123456789'' = [0..<10]"
    by code_simp
  show "map charValue_spec ALPHABET = [17..<43]"
    by code_simp
  show "map charValue_spec ''az.-/ '' = [0, 0, 0, 0, 0, 0]"
    by code_simp
qed

section \<open>Formatting and validation\<close>

lemma take_drop_step: "take n (drop m s) @ drop (m + n) s = drop m s"
proof -
  have "take n (drop m s) @ drop n (drop m s) = drop m s"
    by (rule append_take_drop_id)
  then show ?thesis by (simp add: add.commute)
qed

lemma split_3_3_3_2:
  "take 3 s @ take 3 (drop 3 s) @ take 3 (drop 6 s) @ take 2 (drop 9 s) @ drop 11 s = s"
proof -
  have "take 2 (drop 9 s) @ drop 11 s = drop 9 s"
    using take_drop_step [of 2 9 s] by simp
  moreover have "take 3 (drop 6 s) @ drop 9 s = drop 6 s"
    using take_drop_step [of 3 6 s] by simp
  moreover have "take 3 (drop 3 s) @ drop 6 s = drop 3 s"
    using take_drop_step [of 3 3 s] by simp
  ultimately show ?thesis by simp
qed

lemma split_2_3_3_4_2:
  "take 2 s @ take 3 (drop 2 s) @ take 3 (drop 5 s) @ take 4 (drop 8 s)
     @ take 2 (drop 12 s) @ drop 14 s = s"
proof -
  have "take 2 (drop 12 s) @ drop 14 s = drop 12 s"
    using take_drop_step [of 2 12 s] by simp
  moreover have "take 4 (drop 8 s) @ drop 12 s = drop 8 s"
    using take_drop_step [of 4 8 s] by simp
  moreover have "take 3 (drop 5 s) @ drop 8 s = drop 5 s"
    using take_drop_step [of 3 5 s] by simp
  moreover have "take 3 (drop 2 s) @ drop 5 s = drop 2 s"
    using take_drop_step [of 3 2 s] by simp
  ultimately show ?thesis by simp
qed

lemma punctuation_not_digit:
  "\<not> isDigit (CHR ''.'')" "\<not> isDigit (CHR ''-'')" "\<not> isDigit (CHR ''/'')"
  by (simp_all add: isDigit_def)

lemma punctuation_not_alnum:
  "\<not> isAlnum (CHR ''.'')" "\<not> isAlnum (CHR ''-'')" "\<not> isAlnum (CHR ''/'')"
  by (simp_all add: isAlnum_def isDigit_def isUpper_def isLower_def)

lemma filter_cpf_pattern:
  assumes "\<not> P (CHR ''.'')" "\<not> P (CHR ''-'')"
  shows "filter P (take 3 s @ ''.'' @ take 3 (drop 3 s) @ ''.''
           @ take 3 (drop 6 s) @ ''-'' @ take 2 (drop 9 s) @ drop 11 s) = filter P s"
proof -
  have "filter P (take 3 s @ ''.'' @ take 3 (drop 3 s) @ ''.''
           @ take 3 (drop 6 s) @ ''-'' @ take 2 (drop 9 s) @ drop 11 s)
      = filter P (take 3 s @ take 3 (drop 3 s) @ take 3 (drop 6 s) @ take 2 (drop 9 s)
           @ drop 11 s)"
    using assms by simp
  then show ?thesis by (simp only: split_3_3_3_2)
qed

lemma filter_cnpj_pattern:
  assumes "\<not> P (CHR ''.'')" "\<not> P (CHR ''-'')" "\<not> P (CHR ''/'')"
  shows "filter P (take 2 s @ ''.'' @ take 3 (drop 2 s) @ ''.''
           @ take 3 (drop 5 s) @ ''/'' @ take 4 (drop 8 s) @ ''-''
           @ take 2 (drop 12 s) @ drop 14 s) = filter P s"
proof -
  have "filter P (take 2 s @ ''.'' @ take 3 (drop 2 s) @ ''.''
           @ take 3 (drop 5 s) @ ''/'' @ take 4 (drop 8 s) @ ''-''
           @ take 2 (drop 12 s) @ drop 14 s)
      = filter P (take 2 s @ take 3 (drop 2 s) @ take 3 (drop 5 s) @ take 4 (drop 8 s)
           @ take 2 (drop 12 s) @ drop 14 s)"
    using assms by simp
  then show ?thesis by (simp only: split_2_3_3_4_2)
qed

lemma cleanCPF_format: "cleanCPF (cpf_format s) = cleanCPF s"
proof (induction s rule: cpf_format.induct)
  case 1
  show ?case by simp
next
  case (2 c cs)
  show ?case
  proof (cases "11 \<le> length (c # cs) \<and> list_all isDigit (take 11 (c # cs))")
    case True
    then have "cpf_format (c # cs) =
        take 3 (c # cs) @ ''.'' @ take 3 (drop 3 (c # cs)) @ ''.''
           @ take 3 (drop 6 (c # cs)) @ ''-'' @ take 2 (drop 9 (c # cs))
           @ drop 11 (c # cs)"
      by (simp only: cpf_format.simps simp_thms if_True)
    then show ?thesis
      unfolding cleanCPF_def
      by (simp only: filter_cpf_pattern [OF punctuation_not_digit(1,2)])
  next
    case False
    then have "cpf_format (c # cs) = c # cpf_format cs"
      by (simp only: cpf_format.simps if_False)
    with 2 False show ?thesis by (simp add: cleanCPF_def)
  qed
qed

lemma filter_alnum_format: "filter isAlnum (cnpj_format s) = filter isAlnum s"
proof (induction s rule: cnpj_format.induct)
  case 1
  show ?case by simp
next
  case (2 c cs)
  show ?case
  proof (cases "14 \<le> length (c # cs)
        \<and> list_all (\<lambda>x. \<not> isLineTerminator x) (take 14 (c # cs))")
    case True
    then have "cnpj_format (c # cs) =
        take 2 (c # cs) @ ''.'' @ take 3 (drop 2 (c # cs)) @ ''.''
           @ take 3 (drop 5 (c # cs)) @ ''/'' @ take 4 (drop 8 (c # cs)) @ ''-''
           @ take 2 (drop 12 (c # cs)) @ drop 14 (c # cs)"
      by (simp only: cnpj_format.simps simp_thms if_True)
    then show ?thesis
      by (simp only: filter_cnpj_pattern [OF punctuation_not_alnum(1,2,3)])
  next
    case False
    then have "cnpj_format (c # cs) = c # cnpj_format cs"
      by (simp only: cnpj_format.simps if_False)
    with 2 False show ?thesis by simp
  qed
qed

lemma cpf_isValid_format: "cpf_isValid (cpf_format s) = cpf_isValid s"
  by (simp add: cpf_isValid_def cleanCPF_format)

lemma cnpj_isValid_format: "cnpj_isValid (cnpj_format s) = cnpj_isValid s"
  by (simp add: cnpj_isValid_def filter_alnum_format)

text \<open>
  C2. Formatting has no effect on validation: for every generated document \<open>x\<close>, a CPF
  or a CNPJ of either type, whatever the random draw and the options,
  \<open>isValid(format(x))\<close> equals \<open>isValid(x)\<close>.
\<close>

theorem format_preserves_validity:
  "cpf_isValid (cpf_format (cpf_generate baseCPF cpfOptions))
     = cpf_isValid (cpf_generate baseCPF cpfOptions)
   \<and> cnpj_isValid (cnpj_format (cnpj_generate baseNumeric baseAlphanumeric cnpjOptions))
     = cnpj_isValid (cnpj_generate baseNumeric baseAlphanumeric cnpjOptions)"
  by (simp only: cpf_isValid_format cnpj_isValid_format)

section \<open>Properties of the dispatcher and of the alphanumeric validator\<close>

subsection \<open>Routing and cross-type rejection\<close>

lemma filter_digit_of_alnum: "filter isDigit (filter isAlnum s) = filter isDigit s"
  by (induction s) (simp_all add: isAlnum_def)

lemma filter_alnum_all: "list_all isAlnum (filter isAlnum s)"
  by (simp add: list_all_iff)

lemma all_digit_alnum_digits:
  "list_all isDigit (filter isAlnum s) \<Longrightarrow> filter isDigit s = filter isAlnum s"
  by (induction s) (auto simp: isAlnum_def)

lemma cnpj_isValid_dispatch:
  "cnpj_isValid input =
     (length (filter isAlnum input) = 14
      \<and> (if list_all isDigit (filter isAlnum input)
         then validateNumeric (filter isAlnum input)
         else validateAlphanumeric (filter isAlnum input)))"
proof (cases "length (filter isAlnum input) = 14")
  case False
  then show ?thesis by (simp add: cnpj_isValid_def CNPJ_LENGTH_def)
next
  case True
  then have ne: "filter isAlnum input \<noteq> []" by auto
  then have "isAlfanumeric (filter isAlnum input)"
    by (simp add: isAlfanumeric_def filter_alnum_all)
  with True ne show ?thesis
    by (simp add: cnpj_isValid_def CNPJ_LENGTH_def isNumeric_def Let_def)
qed

lemma cpf_isValid_eleven_digits: "cpf_isValid input \<Longrightarrow> length (filter isDigit input) = 11"
  by (simp add: cpf_isValid_unfold cleanCPF_def cpf_isValidFormat_length)

lemma no_letters_alnum_digits:
  "list_all (\<lambda>c. \<not> isLetter c) s \<Longrightarrow> filter isAlnum s = filter isDigit s"
  by (induction s) (auto simp: isAlnum_def isLetter_def)

text \<open>
  C9, as the code has it. \<open>cnpj.isValid\<close> removes every character that is not a letter
  or a digit and is false unless fourteen characters remain; of fourteen, an all-digit
  string goes to the numeric validator and any other to the alphanumeric one. A CPF
  string, eleven digits with or without punctuation, has eleven characters left and is
  rejected. In the other direction \<open>cpf.isValid\<close> removes every non-digit, letters
  included, and judges the digits alone: it rejects every string that does not hold
  exactly eleven digits, so every numeric CNPJ of fourteen digits, and every
  alphanumeric CNPJ whose number of letters is not three.
\<close>

theorem cnpj_dispatcher:
  "cnpj_isValid input =
     (length (filter isAlnum input) = 14
      \<and> (if list_all isDigit (filter isAlnum input)
         then validateNumeric (filter isAlnum input)
         else validateAlphanumeric (filter isAlnum input)))
   \<and> (length (filter isAlnum input) \<noteq> 14 \<longrightarrow> \<not> cnpj_isValid input)
   \<and> (length (filter isDigit input) = 11 \<and> list_all (\<lambda>c. \<not> isLetter c) input
        \<longrightarrow> \<not> cnpj_isValid input)
   \<and> cpf_isValid input = cpf_isValid (filter isDigit input)
   \<and> (length (filter isDigit input) \<noteq> 11 \<longrightarrow> \<not> cpf_isValid input)
   \<and> (length (filter isAlnum input) = 14 \<and> list_all isDigit (filter isAlnum input)
        \<longrightarrow> \<not> cpf_isValid input)
   \<and> (length (filter isAlnum input) = 14 \<and> length (filter isLetter input) \<noteq> 3
        \<longrightarrow> \<not> cpf_isValid input)"
proof (intro conjI impI)
  show "cnpj_isValid input =
     (length (filter isAlnum input) = 14
      \<and> (if list_all isDigit (filter isAlnum input)
         then validateNumeric (filter isAlnum input)
         else validateAlphanumeric (filter isAlnum input)))"
    by (rule cnpj_isValid_dispatch)
next
  assume "length (filter isAlnum input) \<noteq> 14"
  then show "\<not> cnpj_isValid input" by (simp add: cnpj_isValid_dispatch)
next
  assume h: "length (filter isDigit input) = 11 \<and> list_all (\<lambda>c. \<not> isLetter c) input"
  then have "filter isAlnum input = filter isDigit input"
    by (simp add: no_letters_alnum_digits)
  with h show "\<not> cnpj_isValid input" by (simp add: cnpj_isValid_dispatch)
next
  show "cpf_isValid input = cpf_isValid (filter isDigit input)"
    by (simp add: cpf_isValid_def cleanCPF_def)
next
  assume "length (filter isDigit input) \<noteq> 11"
  then show "\<not> cpf_isValid input" using cpf_isValid_eleven_digits by blast
next
  assume h: "length (filter isAlnum input) = 14 \<and> list_all isDigit (filter isAlnum input)"
  then have "filter isDigit input = filter isAlnum input"
    by (simp add: all_digit_alnum_digits)
  with h have "length (filter isDigit input) \<noteq> 11" by simp
  then show "\<not> cpf_isValid input" using cpf_isValid_eleven_digits by blast
next
  assume h: "length (filter isAlnum input) = 14 \<and> length (filter isLetter input) \<noteq> 3"
  have "length (filter isAlnum input) = length (filter isLetter input) + length (filter isDigit input)"
    by (induction input) (auto simp: isAlnum_def isLetter_def isDigit_def isUpper_def isLower_def)
  with h have "length (filter isDigit input) \<noteq> 11" by simp
  then show "\<not> cpf_isValid input" using cpf_isValid_eleven_digits by blast
qed

theorem cnpj_dispatcher_witness:
  "cnpj_isValid ''54.550.752/0001-55'' \<and> \<not> cpf_isValid ''54.550.752/0001-55''
   \<and> cnpj_isValid ''12.ABC.345/01DE-35'' \<and> \<not> cpf_isValid ''12.ABC.345/01DE-35''
   \<and> cpf_isValid ''295.379.955-93'' \<and> \<not> cnpj_isValid ''295.379.955-93''
   \<and> \<not> cnpj_isValid ''54.550.752/0001''"
proof -
  have n1: "length (filter isAlnum ''54.550.752/0001-55'') = 14" by code_simp
  have n2: "list_all isDigit (filter isAlnum ''54.550.752/0001-55'')" by code_simp
  have n3: "validateNumeric (filter isAlnum ''54.550.752/0001-55'')" by code_simp
  have a1: "length (filter isAlnum ''12.ABC.345/01DE-35'') = 14" by code_simp
  have a2: "\<not> list_all isDigit (filter isAlnum ''12.ABC.345/01DE-35'')" by code_simp
  have a3: "validateAlphanumeric (filter isAlnum ''12.ABC.345/01DE-35'')" by code_simp
  have a4: "length (filter isLetter ''12.ABC.345/01DE-35'') \<noteq> 3" by code_simp
  have a5: "length (filter isDigit ''12.ABC.345/01DE-35'') \<noteq> 11" by code_simp
  have c1: "cpf_isValid ''295.379.955-93''" by code_simp
  have c2: "list_all (\<lambda>c. \<not> isLetter c) ''295.379.955-93''" by code_simp
  have c3: "length (filter isDigit ''295.379.955-93'') = 11" by code_simp
  have s1: "length (filter isAlnum ''54.550.752/0001'') \<noteq> 14" by code_simp
  note n = cnpj_dispatcher [of "''54.550.752/0001-55''"]
  note a = cnpj_dispatcher [of "''12.ABC.345/01DE-35''"]
  note c = cnpj_dispatcher [of "''295.379.955-93''"]
  note s = cnpj_dispatcher [of "''54.550.752/0001''"]
  have "cnpj_isValid ''54.550.752/0001-55''"
    by (subst n [THEN conjunct1]) (simp only: n1 n2 n3 if_True simp_thms)
  moreover have "\<not> cpf_isValid ''54.550.752/0001-55''"
    using n n1 n2 by blast
  moreover have "cnpj_isValid ''12.ABC.345/01DE-35''"
    by (subst a [THEN conjunct1]) (simp only: a1 a2 a3 if_False simp_thms)
  moreover have "\<not> cpf_isValid ''12.ABC.345/01DE-35''"
    using a a1 a4 a5 by blast
  moreover have "\<not> cnpj_isValid ''295.379.955-93''"
    using c c2 c3 by blast
  moreover have "\<not> cnpj_isValid ''54.550.752/0001''"
    using s s1 by blast
  ultimately show ?thesis using c1 by blast
qed

text \<open>
  C9 as worded says that a CNPJ string of fourteen characters is always rejected
  by \<open>cpf.isValid\<close>. The alphanumeric CNPJ \<open>ABC24000000187\<close> is accepted by
  \<open>cnpj.isValid\<close>, and \<open>cpf.isValid\<close> accepts it too: without its three letters it is
  the CPF \<open>24000000187\<close>.
\<close>

theorem cnpj_accepted_as_cpf:
  "length ''ABC24000000187'' = 14 \<and> cnpj_isValid ''ABC24000000187''
   \<and> cpf_isValid ''ABC24000000187''"
  by code_simp

subsection \<open>Case sensitivity\<close>

lemma lower_alnum: "isLower c \<Longrightarrow> isAlnum c"
  by (simp add: isAlnum_def)

lemma lower_not_digit: "isLower c \<Longrightarrow> \<not> isDigit c"
  by (simp add: isLower_def isDigit_def)

lemma lower_not_upper: "isLower c \<Longrightarrow> \<not> isUpper c"
  by (simp add: isLower_def isUpper_def)

lemma lower_routed:
  assumes "list_ex isLower input"
  shows "\<not> list_all isDigit (filter isAlnum input)"
proof -
  from assms obtain c where "c \<in> set input" "isLower c"
    by (auto simp: list_ex_iff)
  then have "c \<in> set (filter isAlnum input)" "\<not> isDigit c"
    by (simp_all add: lower_alnum lower_not_digit)
  then show ?thesis by (auto simp: list_all_iff)
qed

text \<open>
  C10. The cleaning step of \<open>cnpj.isValid\<close> neither removes nor uppercases a lowercase
  letter; an input of cleaned length 14 that contains one goes to the alphanumeric
  validator, where a lowercase letter counts 0 in the weighted sum, the letter map
  having uppercase keys only. So \<open>cnpj.isValid\<close> is case-sensitive: \<open>12ABC34501DE35\<close> is
  valid and its lowercased form is not.
\<close>

theorem cnpj_case_sensitive:
  "(isLower c \<longrightarrow> filter isAlnum [c] = [c])
   \<and> (length (filter isAlnum input) = 14 \<and> list_ex isLower input \<longrightarrow>
        cnpj_isValid input = validateAlphanumeric (filter isAlnum input))
   \<and> (isLower c \<longrightarrow> convertLetterToNumber c = 0 \<and> convertCnpj [c] = [0])
   \<and> cnpj_isValid ''12ABC34501DE35''
   \<and> toLowerCase ''12ABC34501DE35'' = ''12abc34501de35''
   \<and> \<not> cnpj_isValid (toLowerCase ''12ABC34501DE35'')"
proof (intro conjI impI)
  assume "isLower c"
  then show "filter isAlnum [c] = [c]" by (simp add: lower_alnum)
next
  assume "length (filter isAlnum input) = 14 \<and> list_ex isLower input"
  then show "cnpj_isValid input = validateAlphanumeric (filter isAlnum input)"
    by (simp add: cnpj_isValid_dispatch lower_routed)
next
  assume "isLower c"
  then show "convertLetterToNumber c = 0"
    by (simp add: convertLetterToNumber_value lower_not_upper)
next
  assume "isLower c"
  then show "convertCnpj [c] = [0]"
    by (simp add: convertCnpj_values charValue_spec_def lower_not_upper lower_not_digit)
next
  show "cnpj_isValid ''12ABC34501DE35''" by code_simp
next
  show "toLowerCase ''12ABC34501DE35'' = ''12abc34501de35''" by code_simp
next
  show "\<not> cnpj_isValid (toLowerCase ''12ABC34501DE35'')" by code_simp
qed

theorem cnpj_case_sensitive_witness:
  "isLower (CHR ''a'') \<and> filter isAlnum ''a'' = ''a''
   \<and> convertLetterToNumber (CHR ''a'') = 0 \<and> convertCnpj ''a'' = [0]
   \<and> list_ex isLower ''12.abc.345/01de-35''
   \<and> cnpj_isValid ''12.abc.345/01de-35'' = validateAlphanumeric ''12abc34501de35''
   \<and> \<not> validateAlphanumeric ''12abc34501de35''"
proof -
  have l: "isLower (CHR ''a'')" by code_simp
  have f: "filter isAlnum ''12.abc.345/01de-35'' = ''12abc34501de35''" by code_simp
  have n: "length (filter isAlnum ''12.abc.345/01de-35'') = 14" by code_simp
  have e: "list_ex isLower ''12.abc.345/01de-35''" by code_simp
  have v: "\<not> validateAlphanumeric ''12abc34501de35''" by code_simp
  note t = cnpj_case_sensitive [of "CHR ''a''" "''12.abc.345/01de-35''"]
  from t l have "filter isAlnum ''a'' = ''a''
      \<and> convertLetterToNumber (CHR ''a'') = 0 \<and> convertCnpj ''a'' = [0]"
    by blast
  moreover from t n e
  have "cnpj_isValid ''12.abc.345/01de-35''
      = validateAlphanumeric (filter isAlnum ''12.abc.345/01de-35'')"
    by blast
  then have "cnpj_isValid ''12.abc.345/01de-35'' = validateAlphanumeric ''12abc34501de35''"
    by (simp only: f)
  ultimately show ?thesis using l e v by blast
qed

subsection \<open>The comparison of the alphanumeric validator\<close>

lemma radix10_digit: "radixValue c < 10 \<longleftrightarrow> isDigit c"
  by (auto simp: radixValue_def isDigit_def isLower_def isUpper_def)

lemma radixValue_digit: "isDigit c \<Longrightarrow> radixValue c = digitValue c"
  by (simp add: radixValue_def digitValue_def)

lemma alnum_plain:
  assumes "isAlnum c"
  shows "\<not> isWhiteSpace c" "c \<noteq> CHR ''+''" "c \<noteq> CHR ''-''"
  using assms
  by (auto simp: isAlnum_def isWhiteSpace_def isDigit_def isLower_def isUpper_def)

lemma parseInt_pair:
  assumes "isAlnum a"
  shows "parseInt [a, b] =
     (if a = CHR ''0'' \<and> (b = CHR ''x'' \<or> b = CHR ''X'') then None
      else map_option int (parsePair_spec [a, b]))"
proof (cases "a = CHR ''0'' \<and> (b = CHR ''x'' \<or> b = CHR ''X'')")
  case True
  then show ?thesis
    using alnum_plain [OF assms] by (auto simp: parseInt_def Let_def)
next
  case False
  then have nohex: "\<not> (2 \<le> length [a, b] \<and> (take 2 [a, b] = ''0x'' \<or> take 2 [a, b] = ''0X''))"
    by auto
  have "parseInt [a, b] =
      (let z = takeWhile (\<lambda>c. radixValue c < 10) [a, b]
       in if z = [] then None
          else Some (1 * int (foldl (\<lambda>acc c. acc * 10 + radixValue c) 0 z)))"
    unfolding parseInt_def Let_def using alnum_plain [OF assms] False
    by (auto simp del: takeWhile.simps foldl.simps)
  also have "\<dots> = map_option int (parsePair_spec [a, b])"
    by (auto simp: parsePair_spec_def Let_def radix10_digit radixValue_digit)
  finally show ?thesis using False by auto
qed


lemma cnpj_checkDigit_spec_lt10: "cnpj_checkDigit_spec vs < 10"
  by (simp add: cnpj_checkDigit_spec_def mod11Rule_spec_lt10)

lemma alfanumeric_checkDigits_spec:
  "alfanumeric_calculateCheckDigits (map Num (convertCnpj s)) =
     (cnpj_checkDigit_spec (map charValue_spec s),
      cnpj_checkDigit_spec (map charValue_spec s
        @ [cnpj_checkDigit_spec (map charValue_spec s)]))"
proof -
  have "map numericDigit (map Num (convertCnpj s) @ [Num d]) = convertCnpj s @ [d]" for d
    using numericDigit_Num_list [of "convertCnpj s @ [d]"] by simp
  then show ?thesis
    by (simp only: alfanumeric_calculateCheckDigits_def Let_def
        alfanumeric_calculateCheckDigit_numeric numericDigit_Num_list
        numeric_calculateCheckDigit_spec convertCnpj_values)
qed

lemma digit_char_alnum: "d < (10::nat) \<Longrightarrow> isAlnum (char_of (48 + d))"
  by (simp add: isAlnum_def isDigit_digit)

lemma digit_char_not_x:
  assumes "d < (10::nat)"
  shows "char_of (48 + d) \<noteq> CHR ''x''" "char_of (48 + d) \<noteq> CHR ''X''"
proof -
  have "isDigit (char_of (48 + d))" using assms by (rule isDigit_digit)
  moreover have "\<not> isDigit (CHR ''x'')" "\<not> isDigit (CHR ''X'')"
    by (simp_all add: isDigit_def)
  ultimately show "char_of (48 + d) \<noteq> CHR ''x''" "char_of (48 + d) \<noteq> CHR ''X''"
    by auto
qed

lemma parseInt_calculated:
  assumes "d1 < 10" "d2 < 10"
  shows "parseInt (toString d1 @ toString d2) =
     map_option int (parsePair_spec (toString d1 @ toString d2))"
proof -
  have "toString d1 @ toString d2 = [char_of (48 + d1), char_of (48 + d2)]"
    using assms by (simp add: toString_digit)
  moreover have "parseInt [char_of (48 + d1), char_of (48 + d2)] =
      map_option int (parsePair_spec [char_of (48 + d1), char_of (48 + d2)])"
    using parseInt_pair [OF digit_char_alnum [OF assms(1)], of "char_of (48 + d2)"]
      digit_char_not_x [OF assms(2)]
    by simp
  ultimately show ?thesis by simp
qed

lemma strictEquals_int:
  "strictEquals (map_option int x) (map_option int y) =
     (case (x, y) of (Some a, Some b) \<Rightarrow> a = b | _ \<Rightarrow> False)"
  by (simp add: strictEquals_def split: option.splits)

text \<open>
  C8, as the code has it. On a cleaned input of 14 characters \<open>validateAlphanumeric\<close>
  recomputes the two check digits from the first 12 characters and accepts exactly when
  the last two characters and the two computed digits parse to the same integer, where
  parsing reads the decimal digits up to the first non-digit and gives NaN when the
  pair starts with a non-digit, and also when the pair is \<open>0x\<close> or \<open>0X\<close>, which
  \<open>parseInt\<close> takes for the prefix of a hexadecimal number with no digits. The
  comparison is on the parsed integers, not on the characters.
\<close>

theorem alphanumeric_comparison:
  assumes "length cnpj = 14" and "list_all isAlnum cnpj"
  shows "validateAlphanumeric cnpj =
     (drop 12 cnpj \<noteq> ''0x'' \<and> drop 12 cnpj \<noteq> ''0X'' \<and> validateAlphanumeric_spec cnpj)"
proof -
  from assms(1) obtain a b where pair: "drop 12 cnpj = [a, b]"
    by (cases "drop 12 cnpj"; cases "tl (drop 12 cnpj)"; cases "tl (tl (drop 12 cnpj))")
      (auto simp: drop_eq_Nil dest: arg_cong [where f = length])
  then have "a \<in> set (drop 12 cnpj)" by simp
  then have "a \<in> set cnpj" by (rule in_set_dropD)
  with assms(2) have alnum: "isAlnum a" by (simp add: list_all_iff)
  define dv1 where "dv1 = cnpj_checkDigit_spec (map charValue_spec (take 12 cnpj))"
  define dv2 where "dv2 = cnpj_checkDigit_spec (map charValue_spec (take 12 cnpj) @ [dv1])"
  have small: "dv1 < 10" "dv2 < 10"
    by (simp_all add: dv1_def dv2_def cnpj_checkDigit_spec_lt10)
  have code: "validateAlphanumeric cnpj =
      strictEquals (parseInt [a, b]) (parseInt (toString dv1 @ toString dv2))"
    using assms(1) pair
    by (simp add: validateAlphanumeric_def CNPJ_LENGTH_def Let_def
        alfanumeric_checkDigits_spec dv1_def dv2_def)
  have spec: "validateAlphanumeric_spec cnpj =
      (case (parsePair_spec [a, b], parsePair_spec (toString dv1 @ toString dv2)) of
         (Some original, Some calculated) \<Rightarrow> original = calculated
       | _ \<Rightarrow> False)"
    using pair by (simp add: validateAlphanumeric_spec_def Let_def dv1_def dv2_def)
  show ?thesis
  proof (cases "a = CHR ''0'' \<and> (b = CHR ''x'' \<or> b = CHR ''X'')")
    case True
    have "parseInt [a, b] =
        (if a = CHR ''0'' \<and> (b = CHR ''x'' \<or> b = CHR ''X'') then None
         else map_option int (parsePair_spec [a, b]))"
      by (rule parseInt_pair [OF alnum])
    also have "\<dots> = None" using True by (rule if_P)
    finally have "parseInt [a, b] = None" .
    then have "\<not> validateAlphanumeric cnpj" by (simp add: code strictEquals_def)
    moreover from True pair have "drop 12 cnpj = ''0x'' \<or> drop 12 cnpj = ''0X''" by auto
    ultimately show ?thesis by blast
  next
    case False
    have "parseInt [a, b] =
        (if a = CHR ''0'' \<and> (b = CHR ''x'' \<or> b = CHR ''X'') then None
         else map_option int (parsePair_spec [a, b]))"
      by (rule parseInt_pair [OF alnum])
    also have "\<dots> = map_option int (parsePair_spec [a, b])" using False by (rule if_not_P)
    finally have "parseInt [a, b] = map_option int (parsePair_spec [a, b])" .
    then have "validateAlphanumeric cnpj = validateAlphanumeric_spec cnpj"
      by (simp only: code spec parseInt_calculated [OF small] strictEquals_int)
    moreover from False pair have "drop 12 cnpj \<noteq> ''0x'' \<and> drop 12 cnpj \<noteq> ''0X''" by auto
    ultimately show ?thesis by blast
  qed
qed

theorem alphanumeric_comparison_witness:
  "validateAlphanumeric ''12ABC34501DE35'' \<and> validateAlphanumeric_spec ''12ABC34501DE35''
   \<and> \<not> validateAlphanumeric ''12ABC34501DE36'' \<and> \<not> validateAlphanumeric_spec ''12ABC34501DE36''
   \<and> alfanumeric_calculateCheckDigits (map Num (convertCnpj ''A00000000024'')) = (0, 0)
   \<and> validateAlphanumeric ''A000000000240B'' \<and> validateAlphanumeric_spec ''A000000000240B''
   \<and> validateAlphanumeric_spec ''A000000000240X'' \<and> \<not> validateAlphanumeric ''A000000000240X''"
proof -
  have l: "length ''12ABC34501DE35'' = 14" "length ''12ABC34501DE36'' = 14"
    "length ''A000000000240B'' = 14" "length ''A000000000240X'' = 14"
    by simp_all
  have a: "list_all isAlnum ''12ABC34501DE35''" "list_all isAlnum ''12ABC34501DE36''"
    "list_all isAlnum ''A000000000240B''" "list_all isAlnum ''A000000000240X''"
    by code_simp+
  have v: "validateAlphanumeric_spec ''12ABC34501DE35''"
    "\<not> validateAlphanumeric_spec ''12ABC34501DE36''"
    "validateAlphanumeric_spec ''A000000000240B''"
    "validateAlphanumeric_spec ''A000000000240X''"
    by code_simp+
  have d: "alfanumeric_calculateCheckDigits (map Num (convertCnpj ''A00000000024'')) = (0, 0)"
    by code_simp
  have "validateAlphanumeric ''12ABC34501DE35''"
    using alphanumeric_comparison [OF l(1) a(1)] v(1) by simp
  moreover have "\<not> validateAlphanumeric ''12ABC34501DE36''"
    using alphanumeric_comparison [OF l(2) a(2)] v(2) by simp
  moreover have "validateAlphanumeric ''A000000000240B''"
    using alphanumeric_comparison [OF l(3) a(3)] v(3) by simp
  moreover have "\<not> validateAlphanumeric ''A000000000240X''"
    using alphanumeric_comparison [OF l(4) a(4)] by simp
  ultimately show ?thesis using v d by blast
qed

text \<open>
  C8 as worded has parsing stop at the first non-digit, so that the pair \<open>0x\<close>
  would parse to 0. The cleaned input \<open>0000000000000x\<close> has the computed check digits
  0 and 0 and the last two characters \<open>0x\<close>: by the claim's comparison it would be
  accepted, and the code rejects it.
\<close>

theorem hex_prefix_pair_rejected:
  "length ''0000000000000x'' = 14 \<and> list_all isAlnum ''0000000000000x''
   \<and> validateAlphanumeric_spec ''0000000000000x''
   \<and> \<not> validateAlphanumeric ''0000000000000x''
   \<and> \<not> cnpj_isValid ''0000000000000x''"
  by code_simp

section \<open>Generated documents and the blacklists\<close>

text \<open>
  C1 asks that every generated document be valid, bare and formatted. The generators
  never look at the blacklists of the validators: the draw of nine equal digits gives a
  CPF of eleven equal digits, the draw 1 to 9 gives \<open>12345678909\<close>, and the draw of twelve
  zeros gives the CNPJ of fourteen zeros, with either generator. Each of these is a
  possible result of \<open>generate\<close>, and \<open>isValid\<close> rejects it.
\<close>

theorem generate_yields_blacklisted:
  "isBaseCPF [1, 1, 1, 1, 1, 1, 1, 1, 1]
   \<and> cpf_generate [1, 1, 1, 1, 1, 1, 1, 1, 1] None = ''11111111111''
   \<and> \<not> cpf_isValid (cpf_generate [1, 1, 1, 1, 1, 1, 1, 1, 1] None)
   \<and> \<not> cpf_isValid (cpf_format (cpf_generate [1, 1, 1, 1, 1, 1, 1, 1, 1] None))
   \<and> isBaseCPF [1, 2, 3, 4, 5, 6, 7, 8, 9]
   \<and> cpf_generate [1, 2, 3, 4, 5, 6, 7, 8, 9] None = ''12345678909''
   \<and> \<not> cpf_isValid (cpf_generate [1, 2, 3, 4, 5, 6, 7, 8, 9] None)
   \<and> isBaseNumeric (replicate 12 0)
   \<and> isBaseAlphanumeric (replicate 12 (Num 0))
   \<and> cnpj_generate (replicate 12 0) (replicate 12 (Num 0)) None = ''00000000000000''
   \<and> \<not> cnpj_isValid (cnpj_generate (replicate 12 0) (replicate 12 (Num 0)) None)
   \<and> \<not> cnpj_isValid (cnpj_format (cnpj_generate (replicate 12 0) (replicate 12 (Num 0)) None))
   \<and> cnpj_generate (replicate 12 0) (replicate 12 (Num 0))
        (Some \<lparr>type = Some alfanumeric, formatted = None\<rparr>) = ''00000000000000''
   \<and> \<not> cnpj_isValid (cnpj_generate (replicate 12 0) (replicate 12 (Num 0))
        (Some \<lparr>type = Some alfanumeric, formatted = None\<rparr>))"
  by code_simp

subsection \<open>The draws whose documents are valid\<close>

text \<open>
  Apart from the draws above every generated document is valid, bare and formatted: a
  generated CPF is rejected only when the nine base digits are equal or are 1 to 9, a
  generated CNPJ only when the twelve base symbols are the digit 0.
\<close>

lemma digit_chars_clean:
  "list_all (\<lambda>d. d < 10) (ds :: nat list) \<Longrightarrow>
     list_all isDigit (map (\<lambda>d. char_of (48 + d)) ds)"
  by (induction ds) (simp_all add: isDigit_digit)

lemma digit_chars_values:
  "list_all (\<lambda>d. d < 10) (ds :: nat list) \<Longrightarrow>
     map digitValue (map (\<lambda>d. char_of (48 + d)) ds) = ds"
  by (induction ds) (simp_all add: digitValue_digit)

lemma filter_all: "list_all P xs \<Longrightarrow> filter P xs = xs"
  by (induction xs) simp_all

lemma repeatedDigit_iff:
  "repeatedDigit s \<longleftrightarrow> 2 \<le> length s \<and> isDigit (hd s) \<and> s = replicate (length s) (hd s)"
proof (cases s)
  case Nil
  then show ?thesis by (simp add: repeatedDigit_def)
next
  case (Cons c cs)
  have "list_all (\<lambda>x. x = c) cs \<longleftrightarrow> cs = replicate (length cs) c"
    by (induction cs) auto
  with Cons show ?thesis
    by (cases cs) (auto simp: repeatedDigit_def)
qed

lemma repeated_digit_chars:
  assumes small: "list_all (\<lambda>d. d < 10) (ds :: nat list)" and rep: "repeatedDigit (map (\<lambda>d. char_of (48 + d)) ds)"
  shows "ds = replicate (length ds) (hd ds)"
proof -
  let ?s = "map (\<lambda>d. char_of (48 + d)) ds"
  from rep have "?s = replicate (length ?s) (hd ?s)"
    by (simp add: repeatedDigit_iff)
  then have "map digitValue ?s = replicate (length ds) (digitValue (hd ?s))"
    by (metis length_map map_replicate)
  then have eq: "ds = replicate (length ds) (digitValue (hd ?s))"
    by (simp only: digit_chars_values [OF small])
  show ?thesis
  proof (cases ds)
    case Nil
    then show ?thesis by simp
  next
    case (Cons d rest)
    with eq have "hd ds = digitValue (hd ?s)"
      by (metis hd_replicate length_0_conv list.distinct(1) replicate_empty)
    with eq show ?thesis by simp
  qed
qed

lemma cpf_generate_valid_format:
  assumes "isBaseCPF base"
  shows "cpf_isValid (cpf_generate base None) = cpf_isValidFormat (cpf_generate base None)"
proof -
  let ?d1 = "cpf_calculateCheckDigit base"
  let ?d2 = "cpf_calculateCheckDigit (base @ [?d1])"
  let ?ds = "base @ [?d1, ?d2]"
  from assms have len: "length base = 9" and small: "list_all (\<lambda>d. d < 10) ?ds"
    by (simp_all add: isBaseCPF_def cpf_calculateCheckDigit_lt10)
  have gen: "cpf_generate base None = map (\<lambda>d. char_of (48 + d)) ?ds"
    by (rule cpf_generate_unformatted [OF assms])
  have clean: "cleanCPF (cpf_generate base None) = cpf_generate base None"
    unfolding gen cleanCPF_def by (rule filter_all [OF digit_chars_clean [OF small]])
  have vals: "map digitValue (cpf_generate base None) = ?ds"
    unfolding gen by (rule digit_chars_values [OF small])
  show ?thesis
    by (simp add: cpf_isValid_unfold clean vals len nth_append)
qed

lemma cpf_generate_valid_iff:
  assumes "isBaseCPF base"
  shows "cpf_isValid (cpf_generate base None) \<longleftrightarrow>
     base \<noteq> replicate 9 (hd base) \<and> base \<noteq> [1, 2, 3, 4, 5, 6, 7, 8, 9]"
proof -
  let ?d1 = "cpf_calculateCheckDigit base"
  let ?d2 = "cpf_calculateCheckDigit (base @ [?d1])"
  let ?ds = "base @ [?d1, ?d2]"
  from assms have len: "length base = 9" and small: "list_all (\<lambda>d. d < 10) ?ds"
    and bsmall: "list_all (\<lambda>d. d < 10) base"
    by (simp_all add: isBaseCPF_def cpf_calculateCheckDigit_lt10)
  have gen: "cpf_generate base None = map (\<lambda>d. char_of (48 + d)) ?ds"
    by (rule cpf_generate_unformatted [OF assms])
  have vals: "map digitValue (cpf_generate base None) = ?ds"
    unfolding gen by (rule digit_chars_values [OF small])
  have rep: "repeatedDigit (cpf_generate base None) \<longleftrightarrow> base = replicate 9 (hd base)"
  proof
    assume "repeatedDigit (cpf_generate base None)"
    then have "?ds = replicate (length ?ds) (hd ?ds)"
      unfolding gen by (rule repeated_digit_chars [OF small])
    then have "take 9 ?ds = take 9 (replicate (length ?ds) (hd ?ds))" by simp
    with len show "base = replicate 9 (hd base)"
      by (cases base) simp_all
  next
    assume eq: "base = replicate 9 (hd base)"
    from len bsmall have "hd base < 10" by (cases base) simp_all
    then have "?d1 = hd base" "?d2 = hd base"
      using cpf_repeated_checksum [of "hd base"] eq by metis+
    moreover have "replicate 9 (hd base) @ [hd base, hd base] = replicate 11 (hd base)"
      using replicate_add [of 9 2 "hd base"] by (simp add: numeral_2_eq_2)
    ultimately have "?ds = replicate 11 (hd base)"
      using eq by metis
    then have "cpf_generate base None = replicate 11 (char_of (48 + hd base))"
      unfolding gen by simp
    moreover have "isDigit (char_of (48 + hd base))"
      using \<open>hd base < 10\<close> by (rule isDigit_digit)
    ultimately show "repeatedDigit (cpf_generate base None)"
      by (simp add: repeatedDigit_replicate)
  qed
  have lit: "cpf_generate base None = ''12345678909'' \<longleftrightarrow> base = [1, 2, 3, 4, 5, 6, 7, 8, 9]"
  proof
    assume "cpf_generate base None = ''12345678909''"
    then have "map digitValue (cpf_generate base None) = map digitValue ''12345678909''"
      by simp
    also have "map digitValue ''12345678909'' = [1, 2, 3, 4, 5, 6, 7, 8, 9, 0, 9]"
      by code_simp
    finally have "?ds = [1, 2, 3, 4, 5, 6, 7, 8, 9, 0, 9]" by (simp only: vals)
    then have "take 9 ?ds = take 9 [1, 2, 3, 4, 5, 6, 7, 8, 9, 0, 9]" by simp
    with len show "base = [1, 2, 3, 4, 5, 6, 7, 8, 9]" by simp
  next
    assume "base = [1, 2, 3, 4, 5, 6, 7, 8, 9]"
    moreover have "cpf_generate [1, 2, 3, 4, 5, 6, 7, 8, 9] None = ''12345678909''"
      by code_simp
    ultimately show "cpf_generate base None = ''12345678909''" by simp
  qed
  have "length (cpf_generate base None) = 11"
    by (simp add: gen len)
  then show ?thesis
    by (simp add: cpf_generate_valid_format [OF assms] cpf_isValidFormat_def CPF_LENGTH_def
        rep lit)
qed


lemma numeric_calculateCheckDigit_lt10: "numeric_calculateCheckDigit ds < 10"
  by (simp add: numeric_calculateCheckDigit_spec cnpj_checkDigit_spec_lt10)

lemma generateNumeric_chars:
  assumes "isBaseNumeric base"
  shows "generateNumeric base =
     map (\<lambda>d. char_of (48 + d))
       (base @ [numeric_calculateCheckDigit base,
                numeric_calculateCheckDigit (base @ [numeric_calculateCheckDigit base])])"
proof -
  have "list_all (\<lambda>d. d < 10)
          (base @ [numeric_calculateCheckDigit base,
                   numeric_calculateCheckDigit (base @ [numeric_calculateCheckDigit base])])"
    using assms by (simp add: isBaseNumeric_def numeric_calculateCheckDigit_lt10)
  then show ?thesis
    by (simp add: generateNumeric_def numeric_calculateCheckDigits_def Let_def join_digits)
qed

lemma digit_alnum: "isDigit c \<Longrightarrow> isAlnum c"
  by (simp add: isAlnum_def)

lemma all_digits_alnum: "list_all isDigit s \<Longrightarrow> list_all isAlnum s"
  by (induction s) (simp_all add: digit_alnum)

lemma cnpj_isValid_digits:
  assumes "length s = 14" and "list_all isDigit s"
  shows "cnpj_isValid s \<longleftrightarrow>
     \<not> repeatedDigit s
     \<and> numeric_calculateCheckDigit (take 12 (map digitValue s)) = map digitValue s ! 12
     \<and> numeric_calculateCheckDigit (take 12 (map digitValue s)
          @ [numeric_calculateCheckDigit (take 12 (map digitValue s))]) = map digitValue s ! 13"
proof -
  have "filter isAlnum s = s"
    by (rule filter_all [OF all_digits_alnum [OF assms(2)]])
  moreover have "filter isDigit s = s"
    by (rule filter_all [OF assms(2)])
  ultimately show ?thesis
    using assms
    by (simp add: cnpj_isValid_dispatch validateNumeric_def cleanCNPJ_def
        numeric_isValidFormat_def CNPJ_LENGTH_def numeric_calculateCheckDigits_def Let_def)
qed

lemma numeric_repeated_checksum:
  assumes "d < 10" and "numeric_calculateCheckDigit (replicate 12 d) = d"
  shows "d = 0"
proof -
  have "\<forall>d \<in> set [0..<10]. numeric_calculateCheckDigit (replicate 12 d) = d \<longrightarrow> d = 0"
    by code_simp
  moreover from assms(1) have "d \<in> set [0..<10]" by simp
  ultimately show ?thesis using assms(2) by blast
qed

lemma generateNumeric_valid_iff:
  assumes "isBaseNumeric base"
  shows "cnpj_isValid (generateNumeric base) \<longleftrightarrow> base \<noteq> replicate 12 0"
proof -
  let ?d1 = "numeric_calculateCheckDigit base"
  let ?d2 = "numeric_calculateCheckDigit (base @ [?d1])"
  let ?ds = "base @ [?d1, ?d2]"
  from assms have len: "length base = 12" and small: "list_all (\<lambda>d. d < 10) ?ds"
    and bsmall: "list_all (\<lambda>d. d < 10) base"
    by (simp_all add: isBaseNumeric_def numeric_calculateCheckDigit_lt10)
  have gen: "generateNumeric base = map (\<lambda>d. char_of (48 + d)) ?ds"
    by (rule generateNumeric_chars [OF assms])
  have digits: "list_all isDigit (generateNumeric base)"
    unfolding gen by (rule digit_chars_clean [OF small])
  have vals: "map digitValue (generateNumeric base) = ?ds"
    unfolding gen by (rule digit_chars_values [OF small])
  have glen: "length (generateNumeric base) = 14"
    by (simp add: gen len)
  have valid: "cnpj_isValid (generateNumeric base) \<longleftrightarrow> \<not> repeatedDigit (generateNumeric base)"
    by (simp add: cnpj_isValid_digits [OF glen digits] vals len nth_append)
  have "repeatedDigit (generateNumeric base) \<longleftrightarrow> base = replicate 12 0"
  proof
    assume "repeatedDigit (generateNumeric base)"
    then have all: "?ds = replicate (length ?ds) (hd ?ds)"
      unfolding gen by (rule repeated_digit_chars [OF small])
    from len have hd: "hd ?ds = hd base" by (cases base) simp_all
    from all have "take 12 ?ds = take 12 (replicate (length ?ds) (hd ?ds))" by simp
    with len hd have base: "base = replicate 12 (hd base)" by simp
    from all have "?ds ! 12 = replicate (length ?ds) (hd ?ds) ! 12" by simp
    with len hd have "?d1 = hd base" by (simp add: nth_append)
    with base have "numeric_calculateCheckDigit (replicate 12 (hd base)) = hd base" by simp
    moreover from len bsmall have "hd base < 10" by (cases base) simp_all
    ultimately have "hd base = 0" using numeric_repeated_checksum by blast
    with base show "base = replicate 12 0" by simp
  next
    assume "base = replicate 12 0"
    moreover have "repeatedDigit (generateNumeric (replicate 12 0))" by code_simp
    ultimately show "repeatedDigit (generateNumeric base)" by simp
  qed
  with valid show ?thesis by simp
qed


lemma alphabet_upper: "c \<in> set ALPHABET \<Longrightarrow> isUpper c"
proof -
  have "list_all isUpper ALPHABET" by code_simp
  then show "c \<in> set ALPHABET \<Longrightarrow> isUpper c" by (simp add: list_all_iff)
qed

lemma upper_not_digit: "isUpper c \<Longrightarrow> \<not> isDigit c"
  by (simp add: isUpper_def isDigit_def)

lemma upper_alnum: "isUpper c \<Longrightarrow> isAlnum c"
  by (simp add: isAlnum_def)

lemma alfanumeric_checkDigits_values:
  "alfanumeric_calculateCheckDigits base =
     (numeric_calculateCheckDigit (map numericDigit base),
      numeric_calculateCheckDigit (map numericDigit base
        @ [numeric_calculateCheckDigit (map numericDigit base)]))"
  by (simp add: alfanumeric_calculateCheckDigits_def Let_def
      alfanumeric_calculateCheckDigit_numeric numericDigit_def)

lemma validateAlphanumeric_unfold:
  assumes "length cnpj = 14"
  shows "validateAlphanumeric cnpj =
     strictEquals (parseInt (drop 12 cnpj))
       (parseInt (toString (cnpj_checkDigit_spec (map charValue_spec (take 12 cnpj)))
          @ toString (cnpj_checkDigit_spec (map charValue_spec (take 12 cnpj)
               @ [cnpj_checkDigit_spec (map charValue_spec (take 12 cnpj))]))))"
  using assms
  by (simp add: validateAlphanumeric_def CNPJ_LENGTH_def Let_def alfanumeric_checkDigits_spec)

lemma parseInt_calculated_Some:
  assumes "d1 < 10" "d2 < 10"
  shows "parseInt (toString d1 @ toString d2) = Some (int (d1 * 10 + d2))"
proof -
  have "parsePair_spec (toString d1 @ toString d2) = Some (d1 * 10 + d2)"
    using assms by (simp add: toString_digit parsePair_spec_def isDigit_digit digitValue_digit)
  then show ?thesis
    by (simp only: parseInt_calculated [OF assms] option.map)
qed

lemma generateAlphanumeric_valid_iff:
  assumes "isBaseAlphanumeric base"
  shows "cnpj_isValid (generateAlphanumeric base) \<longleftrightarrow> base \<noteq> replicate 12 (Num 0)"
proof -
  let ?ch = "\<lambda>d. case d of Num n \<Rightarrow> char_of (48 + n) | Str c \<Rightarrow> c"
  let ?vs = "map numericDigit base"
  let ?d1 = "numeric_calculateCheckDigit ?vs"
  let ?d2 = "numeric_calculateCheckDigit (?vs @ [?d1])"
  from assms have len: "length base = 12"
    and elems: "\<And>d. d \<in> set base \<Longrightarrow> (case d of Num n \<Rightarrow> n < 10 | Str c \<Rightarrow> c \<in> set ALPHABET)"
    by (simp_all add: isBaseAlphanumeric_def list_all_iff)
  have d_small: "?d1 < 10" "?d2 < 10"
    by (rule numeric_calculateCheckDigit_lt10)+
  have join_base: "alfanumeric_join base = map ?ch base"
    using elems
  proof (induction base)
    case Nil
    show ?case by (simp add: alfanumeric_join_def)
  next
    case (Cons d ds)
    then have "alfanumeric_join ds = map ?ch ds" by simp
    moreover have "alfanumeric_join (d # ds) =
        (case d of Num n \<Rightarrow> toString n | Str c \<Rightarrow> [c]) @ alfanumeric_join ds"
      by (simp add: alfanumeric_join_def)
    moreover have "(case d of Num n \<Rightarrow> toString n | Str c \<Rightarrow> [c]) = [?ch d]"
      using Cons.prems [of d] by (cases d) (simp_all add: toString_digit)
    ultimately show ?case by simp
  qed
  have gen: "generateAlphanumeric base =
      map ?ch base @ [char_of (48 + ?d1), char_of (48 + ?d2)]"
    using d_small
    by (simp add: generateAlphanumeric_def alfanumeric_checkDigits_values
        alfanumeric_join_def join_base [unfolded alfanumeric_join_def] toString_digit)
  have glen: "length (generateAlphanumeric base) = 14"
    by (simp add: gen len)
  have ch_alnum: "isAlnum (?ch d)" if "d \<in> set base" for d
    using elems [OF that]
    by (cases d) (simp_all add: digit_char_alnum upper_alnum alphabet_upper)
  have alnum: "list_all isAlnum (generateAlphanumeric base)"
    using ch_alnum d_small by (simp add: gen list_all_iff digit_char_alnum)
  have clean: "filter isAlnum (generateAlphanumeric base) = generateAlphanumeric base"
    by (rule filter_all [OF alnum])
  show ?thesis
  proof (cases "\<exists>c. Str c \<in> set base")
    case True
    then obtain c where c: "Str c \<in> set base" by blast
    then have up: "isUpper c" using elems [of "Str c"] by (simp add: alphabet_upper)
    from c have "?ch (Str c) \<in> ?ch ` set base" by (rule imageI)
    then have "c \<in> set (generateAlphanumeric base)" by (simp add: gen)
    moreover from up have "\<not> isDigit c" by (rule upper_not_digit)
    ultimately have nodig: "\<not> list_all isDigit (generateAlphanumeric base)"
      unfolding list_all_iff by blast
    have vals: "map charValue_spec (map ?ch base) = ?vs"
    proof (rule map_ext [THEN trans [OF map_map]], rule impI)
      fix d assume "d \<in> set base"
      from elems [OF this] show "(charValue_spec \<circ> ?ch) d = numericDigit d"
        by (cases d)
          (simp_all add: charValue_spec_def isDigit_digit digitValue_digit numericDigit_def
            convertLetterToNumber_value alphabet_upper upper_not_digit)
    qed
    have take12: "take 12 (generateAlphanumeric base) = map ?ch base"
      by (simp add: gen len)
    have drop12: "drop 12 (generateAlphanumeric base) = toString ?d1 @ toString ?d2"
      using d_small by (simp add: gen len toString_digit)
    have "validateAlphanumeric (generateAlphanumeric base) =
        strictEquals (parseInt (toString ?d1 @ toString ?d2))
          (parseInt (toString ?d1 @ toString ?d2))"
      by (simp only: validateAlphanumeric_unfold [OF glen] take12 drop12 vals
          numeric_calculateCheckDigit_spec [symmetric])
    then have "validateAlphanumeric (generateAlphanumeric base)"
      by (simp add: parseInt_calculated_Some [OF d_small] strictEquals_def)
    then have "cnpj_isValid (generateAlphanumeric base)"
      using nodig by (simp add: cnpj_isValid_dispatch clean glen)
    moreover from c have "base \<noteq> replicate 12 (Num 0)" by auto
    ultimately show ?thesis by simp
  next
    case False
    then have nums: "\<And>d. d \<in> set base \<Longrightarrow> d = Num (numericDigit d)"
      by (metis digit.exhaust digit.simps(5) numericDigit_def)
    then have base: "base = map Num ?vs"
      by (simp add: map_idI [symmetric] comp_def)
    have "list_all (\<lambda>d. d < 10) ?vs"
      using elems nums by (fastforce simp: list_all_iff split: digit.splits)
    with len have bn: "isBaseNumeric ?vs" by (simp add: isBaseNumeric_def)
    have "map ?ch base = map (\<lambda>d. char_of (48 + d)) ?vs"
      by (subst base) (simp add: comp_def numericDigit_Num_list)
    then have "generateAlphanumeric base = generateNumeric ?vs"
      by (simp add: gen generateNumeric_chars [OF bn])
    then have "cnpj_isValid (generateAlphanumeric base) \<longleftrightarrow> ?vs \<noteq> replicate 12 0"
      by (simp add: generateNumeric_valid_iff [OF bn])
    also have "\<dots> \<longleftrightarrow> base \<noteq> replicate 12 (Num 0)"
    proof -
      have "?vs = replicate 12 0 \<longleftrightarrow> base = replicate 12 (Num 0)"
      proof
        assume "?vs = replicate 12 0"
        then have "map Num ?vs = map Num (replicate 12 0)" by simp
        then show "base = replicate 12 (Num 0)" using base by simp
      next
        assume "base = replicate 12 (Num 0)"
        then show "?vs = replicate 12 0" by (simp add: numericDigit_def)
      qed
      then show ?thesis by simp
    qed
    finally show ?thesis .
  qed
qed


lemma generated_documents_valid:
  "isBaseCPF baseCPF \<Longrightarrow> baseCPF \<noteq> replicate 9 (hd baseCPF) \<Longrightarrow>
     baseCPF \<noteq> [1, 2, 3, 4, 5, 6, 7, 8, 9] \<Longrightarrow>
     cpf_isValid (cpf_generate baseCPF None)
     \<and> cpf_isValid (cpf_format (cpf_generate baseCPF None))"
  "isBaseNumeric baseNumeric \<Longrightarrow> baseNumeric \<noteq> replicate 12 0 \<Longrightarrow>
     cnpj_isValid (generateNumeric baseNumeric)
     \<and> cnpj_isValid (cnpj_format (generateNumeric baseNumeric))"
  "isBaseAlphanumeric baseAlphanumeric \<Longrightarrow> baseAlphanumeric \<noteq> replicate 12 (Num 0) \<Longrightarrow>
     cnpj_isValid (generateAlphanumeric baseAlphanumeric)
     \<and> cnpj_isValid (cnpj_format (generateAlphanumeric baseAlphanumeric))"
  by (simp_all add: cpf_generate_valid_iff generateNumeric_valid_iff
      generateAlphanumeric_valid_iff cpf_isValid_format cnpj_isValid_format)


section \<open>Changing a check digit\<close>

text \<open>
  C3 asks that changing one of the last two characters of a valid document to any other
  character of the document alphabet make it invalid. The alphanumeric validator
  compares parsed integers: when the check digits are 00, a letter in the last place
  leaves the parsed value 0, and the document is still accepted. \<open>45000011000100\<close> is a
  valid numeric CNPJ and \<open>12ABC345001400\<close> a valid alphanumeric one; with the last
  character changed to a letter both go to the alphanumeric validator and pass.
\<close>

theorem check_digit_letter_accepted:
  "cnpj_isValid ''45000011000100''
   \<and> ''45000011000100'' [13 := CHR ''A''] = ''4500001100010A''
   \<and> cnpj_isValid (''45000011000100'' [13 := CHR ''A''])
   \<and> cnpj_isValid ''12ABC345001400''
   \<and> ''12ABC345001400'' [13 := CHR ''Z''] = ''12ABC34500140Z''
   \<and> cnpj_isValid (''12ABC345001400'' [13 := CHR ''Z''])
   \<and> alfanumeric_calculateCheckDigits (map Num (convertCnpj ''12ABC3450014'')) = (0, 0)
   \<and> parseInt ''0Z'' = Some 0 \<and> parseInt ''00'' = Some 0"
  by code_simp

subsection \<open>The changes of a check digit that are detected\<close>

text \<open>
  A change of one of the last two characters to another digit is always detected, in
  all three validators, and so is any change of the first check digit of a CNPJ. A
  change of the second check digit of a CNPJ to a letter is detected unless the check
  digits are 00 (and the letter is not x or X).
\<close>

lemma digitValue_inj:
  assumes "isDigit a" "isDigit b" "digitValue a = digitValue b"
  shows "a = b"
proof -
  from assms have "(of_char a :: nat) = of_char b"
    unfolding isDigit_def digitValue_def by arith
  then show ?thesis by simp
qed

lemma charValue_digit: "isDigit c \<Longrightarrow> charValue_spec c = digitValue c"
  by (simp add: charValue_spec_def)

lemma charValues_digits: "list_all isDigit s \<Longrightarrow> map charValue_spec s = map digitValue s"
  by (induction s) (simp_all add: charValue_digit)

lemma drop12_pair: "length s = 14 \<Longrightarrow> drop 12 s = [s ! 12, s ! 13]"
proof -
  assume len: "length s = 14"
  then have "drop 12 s = s ! 12 # drop 13 s"
    using Cons_nth_drop_Suc [of 12 s] by simp
  moreover from len have "drop 13 s = s ! 13 # drop 14 s"
    using Cons_nth_drop_Suc [of 13 s] by simp
  ultimately show ?thesis using len by simp
qed

lemma parsePair_two_digits:
  "isDigit a \<Longrightarrow> isDigit b \<Longrightarrow> parsePair_spec [a, b] = Some (digitValue a * 10 + digitValue b)"
  by (simp add: parsePair_spec_def)

lemma parsePair_digit_other:
  "isDigit a \<Longrightarrow> \<not> isDigit b \<Longrightarrow> parsePair_spec [a, b] = Some (digitValue a)"
  by (simp add: parsePair_spec_def)

lemma parsePair_other: "\<not> isDigit a \<Longrightarrow> parsePair_spec [a, b] = None"
  by (simp add: parsePair_spec_def)

lemma digitValue_lt10: "isDigit c \<Longrightarrow> digitValue c < 10"
  unfolding isDigit_def digitValue_def by arith

lemma validateAlphanumeric_pair:
  assumes len: "length s = 14"
  shows "validateAlphanumeric s =
     strictEquals (parseInt [s ! 12, s ! 13])
       (Some (int (cnpj_checkDigit_spec (map charValue_spec (take 12 s)) * 10
          + cnpj_checkDigit_spec (map charValue_spec (take 12 s)
               @ [cnpj_checkDigit_spec (map charValue_spec (take 12 s))]))))"
  by (simp only: validateAlphanumeric_unfold [OF len] drop12_pair [OF len]
      parseInt_calculated_Some [OF cnpj_checkDigit_spec_lt10 cnpj_checkDigit_spec_lt10])

lemma cnpj_valid_check_digits:
  assumes len: "length s = 14" and alnum: "list_all isAlnum s"
    and d12: "isDigit (s ! 12)" and d13: "isDigit (s ! 13)"
    and valid: "cnpj_isValid s"
  shows "digitValue (s ! 12) = cnpj_checkDigit_spec (map charValue_spec (take 12 s))
     \<and> digitValue (s ! 13) = cnpj_checkDigit_spec (map charValue_spec (take 12 s)
          @ [cnpj_checkDigit_spec (map charValue_spec (take 12 s))])"
proof (cases "list_all isDigit s")
  case True
  then have "list_all isDigit (take 12 s)"
    by (auto simp: list_all_iff dest: in_set_takeD)
  then have "map charValue_spec (take 12 s) = take 12 (map digitValue s)"
    by (simp add: charValues_digits take_map)
  moreover from valid have
    "numeric_calculateCheckDigit (take 12 (map digitValue s)) = map digitValue s ! 12"
    "numeric_calculateCheckDigit (take 12 (map digitValue s)
          @ [numeric_calculateCheckDigit (take 12 (map digitValue s))]) = map digitValue s ! 13"
    using cnpj_isValid_digits [OF len True] by blast+
  ultimately show ?thesis
    using len by (simp add: numeric_calculateCheckDigit_spec)
next
  case False
  have clean: "filter isAlnum s = s" by (rule filter_all [OF alnum])
  from valid False have "validateAlphanumeric s"
    by (simp add: cnpj_isValid_dispatch clean)
  moreover have "parseInt [s ! 12, s ! 13] =
      Some (int (digitValue (s ! 12) * 10 + digitValue (s ! 13)))"
  proof -
    have "s ! 12 \<noteq> CHR ''0'' \<or> (s ! 13 \<noteq> CHR ''x'' \<and> s ! 13 \<noteq> CHR ''X'')"
      using d13 by (auto simp: isDigit_def)
    then have "parseInt [s ! 12, s ! 13] = map_option int (parsePair_spec [s ! 12, s ! 13])"
      using parseInt_pair [OF digit_alnum [OF d12], of "s ! 13"] by auto
    then show ?thesis by (simp add: parsePair_two_digits [OF d12 d13])
  qed
  ultimately have "digitValue (s ! 12) * 10 + digitValue (s ! 13) =
      cnpj_checkDigit_spec (map charValue_spec (take 12 s)) * 10
          + cnpj_checkDigit_spec (map charValue_spec (take 12 s)
               @ [cnpj_checkDigit_spec (map charValue_spec (take 12 s))])"
    by (simp add: validateAlphanumeric_pair [OF len] strictEquals_def)
  moreover have "digitValue (s ! 13) < 10"
    by (rule digitValue_lt10 [OF d13])
  moreover have "cnpj_checkDigit_spec (map charValue_spec (take 12 s)
               @ [cnpj_checkDigit_spec (map charValue_spec (take 12 s))]) < 10"
    by (rule cnpj_checkDigit_spec_lt10)
  ultimately show ?thesis by arith
qed


lemma list_all_update: "list_all P xs \<Longrightarrow> P c \<Longrightarrow> list_all P (xs[i := c])"
  using set_update_subset_insert [of xs i c] by (auto simp: list_all_iff)

lemma digit_zero: "isDigit c \<Longrightarrow> digitValue c = 0 \<longleftrightarrow> c = CHR ''0''"
proof
  assume "isDigit c" "digitValue c = 0"
  moreover have "isDigit (CHR ''0'')" "digitValue (CHR ''0'') = 0"
    by (simp_all add: isDigit_def digitValue_def)
  ultimately show "c = CHR ''0''" using digitValue_inj by metis
next
  assume "c = CHR ''0''"
  then show "digitValue c = 0" by (simp add: digitValue_def)
qed

lemma not_all_digits: "i < length s \<Longrightarrow> \<not> isDigit (s ! i) \<Longrightarrow> \<not> list_all isDigit s"
  by (auto simp: list_all_iff)

lemma parseInt_letter_first:
  assumes "isAlnum a" "\<not> isDigit a"
  shows "parseInt [a, b] = None"
proof -
  from assms(2) have "a \<noteq> CHR ''0''" by (auto simp: isDigit_def)
  then have "parseInt [a, b] = map_option int (parsePair_spec [a, b])"
    using parseInt_pair [OF assms(1), of b] by auto
  then show ?thesis by (simp add: parsePair_other [OF assms(2)])
qed

lemma cnpj_first_check_digit_change:
  assumes len: "length d = 14" and alnum: "list_all isAlnum d"
    and d12: "isDigit (d ! 12)" and d13: "isDigit (d ! 13)"
    and valid: "cnpj_isValid d"
    and c: "isAlnum c" and change: "c \<noteq> d ! 12"
  shows "\<not> cnpj_isValid (d[12 := c])"
proof
  let ?d' = "d[12 := c]"
  assume valid': "cnpj_isValid ?d'"
  have len': "length ?d' = 14" using len by simp
  have alnum': "list_all isAlnum ?d'" by (rule list_all_update [OF alnum c])
  have base: "take 12 ?d' = take 12 d" by simp
  have at12: "?d' ! 12 = c" using len by simp
  have at13: "?d' ! 13 = d ! 13" by simp
  show False
  proof (cases "isDigit c")
    case True
    then have "isDigit (?d' ! 12)" "isDigit (?d' ! 13)"
      using d13 by (simp_all add: at12)
    from cnpj_valid_check_digits [OF len' alnum' this valid']
    have "digitValue c = cnpj_checkDigit_spec (map charValue_spec (take 12 d))"
      by (simp only: at12 base)
    moreover from cnpj_valid_check_digits [OF len alnum d12 d13 valid]
    have "digitValue (d ! 12) = cnpj_checkDigit_spec (map charValue_spec (take 12 d))"
      by blast
    ultimately have "c = d ! 12"
      using digitValue_inj [OF True d12] by simp
    with change show False by contradiction
  next
    case False
    then have "\<not> list_all isDigit ?d'"
      using not_all_digits [of 12 ?d'] len by (simp only: at12 len') simp
    with valid' have "validateAlphanumeric ?d'"
      by (simp add: cnpj_isValid_dispatch filter_all [OF alnum'])
    then show False
      by (simp only: validateAlphanumeric_pair [OF len'] at12
          parseInt_letter_first [OF c False] strictEquals_def) simp
  qed
qed

lemma cnpj_second_check_digit_change:
  assumes len: "length d = 14" and alnum: "list_all isAlnum d"
    and d12: "isDigit (d ! 12)" and d13: "isDigit (d ! 13)"
    and valid: "cnpj_isValid d"
    and c: "isAlnum c" and change: "c \<noteq> d ! 13"
  shows "cnpj_isValid (d[13 := c]) \<longleftrightarrow>
     d ! 12 = CHR ''0'' \<and> d ! 13 = CHR ''0'' \<and> \<not> isDigit c \<and> c \<noteq> CHR ''x'' \<and> c \<noteq> CHR ''X''"
proof -
  let ?d' = "d[13 := c]"
  let ?dv1 = "cnpj_checkDigit_spec (map charValue_spec (take 12 d))"
  let ?dv2 = "cnpj_checkDigit_spec (map charValue_spec (take 12 d) @ [?dv1])"
  have len': "length ?d' = 14" using len by simp
  have alnum': "list_all isAlnum ?d'" by (rule list_all_update [OF alnum c])
  have base: "take 12 ?d' = take 12 d" by simp
  have at12: "?d' ! 12 = d ! 12" by simp
  have at13: "?d' ! 13 = c" using len by simp
  from cnpj_valid_check_digits [OF len alnum d12 d13 valid]
  have dv: "digitValue (d ! 12) = ?dv1" "digitValue (d ! 13) = ?dv2" by blast+
  show ?thesis
  proof (cases "isDigit c")
    case True
    have "\<not> cnpj_isValid ?d'"
    proof
      assume valid': "cnpj_isValid ?d'"
      from True d12 have "isDigit (?d' ! 12)" "isDigit (?d' ! 13)"
        by (simp_all add: at13)
      from cnpj_valid_check_digits [OF len' alnum' this valid']
      have "digitValue c = ?dv2" by (simp only: at13 base)
      with dv(2) have "c = d ! 13" using digitValue_inj [OF True d13] by simp
      with change show False by contradiction
    qed
    with True show ?thesis by simp
  next
    case False
    then have "\<not> list_all isDigit ?d'"
      using not_all_digits [of 13 ?d'] len by (simp only: at13 len') simp
    then have route: "cnpj_isValid ?d' =
        strictEquals (parseInt [d ! 12, c]) (Some (int (?dv1 * 10 + ?dv2)))"
      using len
      by (simp add: cnpj_isValid_dispatch filter_all [OF alnum']
          validateAlphanumeric_pair [OF len'] at13)
    show ?thesis
    proof (cases "d ! 12 = CHR ''0'' \<and> (c = CHR ''x'' \<or> c = CHR ''X'')")
      case True
      have "parseInt [d ! 12, c] =
          (if d ! 12 = CHR ''0'' \<and> (c = CHR ''x'' \<or> c = CHR ''X'') then None
           else map_option int (parsePair_spec [d ! 12, c]))"
        by (rule parseInt_pair [OF digit_alnum [OF d12]])
      also have "\<dots> = None" using True by (rule if_P)
      finally have "\<not> cnpj_isValid ?d'" by (simp add: route strictEquals_def)
      with True show ?thesis by blast
    next
      case nohex: False
      have "parseInt [d ! 12, c] =
          (if d ! 12 = CHR ''0'' \<and> (c = CHR ''x'' \<or> c = CHR ''X'') then None
           else map_option int (parsePair_spec [d ! 12, c]))"
        by (rule parseInt_pair [OF digit_alnum [OF d12]])
      also have "\<dots> = map_option int (parsePair_spec [d ! 12, c])"
        using nohex by (rule if_not_P)
      also have "\<dots> = Some (int (digitValue (d ! 12)))"
        by (simp add: parsePair_digit_other [OF d12 False])
      finally have "cnpj_isValid ?d' \<longleftrightarrow> ?dv1 = ?dv1 * 10 + ?dv2"
        by (simp add: route strictEquals_def dv(1) del: of_nat_add of_nat_mult)
      also have "\<dots> \<longleftrightarrow> ?dv1 = 0 \<and> ?dv2 = 0" by arith
      also have "\<dots> \<longleftrightarrow> d ! 12 = CHR ''0'' \<and> d ! 13 = CHR ''0''"
        using digit_zero [OF d12, unfolded dv(1)] digit_zero [OF d13, unfolded dv(2)]
        by blast
      finally show ?thesis using False nohex by blast
    qed
  qed
qed

lemma cpf_check_digit_change:
  assumes valid: "cpf_isValid d" and len: "length d = 11" and digits: "list_all isDigit d"
    and i: "i = 9 \<or> i = 10" and c: "isDigit c" and change: "c \<noteq> d ! i"
  shows "\<not> cpf_isValid (d[i := c])"
proof
  let ?d' = "d[i := c]"
  assume valid': "cpf_isValid ?d'"
  have digits': "list_all isDigit ?d'" by (rule list_all_update [OF digits c])
  have clean: "cleanCPF d = d" "cleanCPF ?d' = ?d'"
    unfolding cleanCPF_def by (rule filter_all [OF digits], rule filter_all [OF digits'])
  from i have base: "take 9 (map digitValue ?d') = take 9 (map digitValue d)"
    by (auto simp: take_map)
  from valid have v: "cpf_calculateCheckDigit (take 9 (map digitValue d)) = map digitValue d ! 9"
    "cpf_calculateCheckDigit (take 9 (map digitValue d)
        @ [cpf_calculateCheckDigit (take 9 (map digitValue d))]) = map digitValue d ! 10"
    using cpf_isValid_unfold [of d, unfolded clean(1)] by blast+
  from valid' have v': "cpf_calculateCheckDigit (take 9 (map digitValue d)) = map digitValue ?d' ! 9"
    "cpf_calculateCheckDigit (take 9 (map digitValue d)
        @ [cpf_calculateCheckDigit (take 9 (map digitValue d))]) = map digitValue ?d' ! 10"
    using cpf_isValid_unfold [of ?d', unfolded clean(2) base] by blast+
  from v v' have "map digitValue ?d' ! i = map digitValue d ! i"
    using i by auto
  with len i have "digitValue c = digitValue (d ! i)" by auto
  moreover from digits len i have "isDigit (d ! i)" by (auto simp: list_all_length)
  ultimately have "c = d ! i" using digitValue_inj [OF c] by blast
  with change show False by contradiction
qed

end
